theory Spec2Isabelle
  imports Complex_Main "HOL-Library.Word" "HOL-Library.Log_Nat"
begin

section \<open>The occupancy grid consumed by the planner\<close>

text \<open>
  The planner reads its grid through \<^verbatim>\<open>nav2_costmap_2d::Costmap2D\<close>, which is not part of
  the planner's source file.  The queries the planner calls are taken as the fields of a
  record, so every result below holds for any grid: \<^verbatim>\<open>getResolution\<close>, \<^verbatim>\<open>getOriginX/Y\<close>,
  \<^verbatim>\<open>getSizeInCellsX/Y\<close> (C++ \<^verbatim>\<open>unsigned int\<close>), \<^verbatim>\<open>getCost(mx, my)\<close> and
  \<^verbatim>\<open>worldToMap(wx, wy, mx, my)\<close>, whose boolean result and two output cells are modelled
  as an optional pair.  The values of C++ \<^verbatim>\<open>double\<close>s are modelled as real numbers.  Where the
  planner only adds, compares and stores them they are used as such; where an integer is
  taken from a \<^verbatim>\<open>double\<close> (the number of steps of a segment, the number of rounds of a loop
  with a \<^verbatim>\<open>double\<close> counter) the rounding of every operation is written out, because one unit
  in the last place changes that integer.
\<close>

record Costmap2D =
  getResolution :: real
  getOriginX :: real
  getOriginY :: real
  getSizeInCellsX :: nat
  getSizeInCellsY :: nat
  getCost :: "nat \<Rightarrow> nat \<Rightarrow> nat"
  worldToMap :: "real \<Rightarrow> real \<Rightarrow> (nat \<times> nat) option"

text \<open>Modelled from the spec: the cost value of a traversable cell (\<^verbatim>\<open>FREE_SPACE\<close> is
  declared in the grid library, not in the planner's source file).\<close>

definition FREE_SPACE :: nat where
  "FREE_SPACE = 0"

section \<open>Vertices and the planner's member variables\<close>

text \<open>
  Modelled from the spec: the \<^verbatim>\<open>Vertex\<close> type (declared in the planner's header, which is not
  among the source files): a position, the cost of the edge to the parent, and a parent
  link, with a constructor that takes the position and leaves the vertex without a parent.  The
  tree owns its vertices through \<^verbatim>\<open>unique_ptr\<close>s, so a \<^verbatim>\<open>Vertex*\<close> that points into the tree is
  modelled as the index of the vertex in \<^verbatim>\<open>tree_\<close>, and \<^verbatim>\<open>nullptr\<close> as \<open>None\<close>.  The fields
  \<^verbatim>\<open>x\<close> and \<^verbatim>\<open>y\<close> are named \<open>vx\<close> and \<open>vy\<close>.
\<close>

record Vertex =
  vx :: real
  vy :: real
  cost :: real
  parent :: "nat option"

text \<open>The constructor \<^verbatim>\<open>Vertex(x, y)\<close>: no parent, edge cost zero.  (The planner assigns the
  edge cost of every vertex before it reads it.)\<close>

definition mk_Vertex :: "real \<Rightarrow> real \<Rightarrow> Vertex" where
  "mk_Vertex px py = \<lparr>vx = px, vy = py, cost = 0, parent = None\<rparr>"

text \<open>The member variables of the planner class that the planning code reads or writes,
  named without their trailing underscore.\<close>

record RRTStar =
  costmap :: Costmap2D
  global_frame :: string
  max_iterations :: int
  interpolation_resolution :: real
  ball_radius_constant :: real
  tree :: "Vertex list"

section \<open>Binary64 arithmetic\<close>

text \<open>
  An IEEE 754 binary64 operation returns the exact result rounded to the nearest
  representable number, ties to the one with an even significand.  The representable
  numbers are the integer multiples \<open>m \<cdot> 2\<^sup>q\<close> with \<open>|m| < 2\<^sup>5\<^sup>3\<close> and \<open>q \<ge> -1074\<close>; around a real
  \<open>x \<noteq> 0\<close> their spacing is \<open>2\<^sup>q\<close> for \<open>q = max(\<lfloor>log\<^sub>2 |x|\<rfloor> - 52, -1074)\<close>.  The exponent range
  is not bounded above in the model: a result of magnitude \<open>2\<^sup>1\<^sup>0\<^sup>2\<^sup>4\<close> or more, which binary64
  replaces by an infinity, stays finite here.
\<close>

definition round_ties_even :: "real \<Rightarrow> int" where
  "round_ties_even x =
     (let f = \<lfloor>x\<rfloor>; r = x - of_int f
      in if r < 1/2 then f else if 1/2 < r then f + 1 else if even f then f else f + 1)"

definition quantum :: "real \<Rightarrow> int" where
  "quantum x = max (\<lfloor>log 2 \<bar>x\<bar>\<rfloor> - 52) (- 1074)"

definition rnd64 :: "real \<Rightarrow> real" where
  "rnd64 x =
     (if x = 0 then 0
      else of_int (round_ties_even (x / 2 powr of_int (quantum x))) * 2 powr of_int (quantum x))"

text \<open>The operators \<^verbatim>\<open>+\<close>, \<^verbatim>\<open>-\<close>, \<^verbatim>\<open>*\<close> and \<^verbatim>\<open>/\<close> on \<^verbatim>\<open>double\<close>s.  A quotient by zero (an
  infinity or NaN in C++) is not represented; the planner divides by the interpolation
  resolution, which the caller validates to be positive, and by step counts, whose
  quotient it only uses when the step count is positive.\<close>

definition fadd :: "real \<Rightarrow> real \<Rightarrow> real" where
  "fadd a b = rnd64 (a + b)"

definition fsub :: "real \<Rightarrow> real \<Rightarrow> real" where
  "fsub a b = rnd64 (a - b)"

definition fmul :: "real \<Rightarrow> real \<Rightarrow> real" where
  "fmul a b = rnd64 (a * b)"

definition fdiv :: "real \<Rightarrow> real \<Rightarrow> real" where
  "fdiv a b = rnd64 (a / b)"

text \<open>\<^verbatim>\<open>std::hypot\<close> is a function of the C library; it is modelled by the correctly rounded
  length.  (A library may return a neighbour of that number for some arguments.  For a
  segment parallel to an axis the result is fixed: Annex F of the C standard has
  \<^verbatim>\<open>hypot(a, 0)\<close> equal \<^verbatim>\<open>fabs(a)\<close>, which is what the model gives for a representable
  \<open>a\<close>.)\<close>

definition hypot :: "real \<Rightarrow> real \<Rightarrow> real" where
  "hypot a b = rnd64 (sqrt (a\<^sup>2 + b\<^sup>2))"

section \<open>The local planner: \<^verbatim>\<open>connectible\<close>\<close>

text \<open>The loop \<^verbatim>\<open>for (int i = 0; i < steps; ++i)\<close> of \<^verbatim>\<open>connectible\<close>, with its two early
  returns and the two accumulating additions.  \<open>steps\<close> is the integral value that
  \<^verbatim>\<open>std::ceil\<close> produced.  The counter is a C++ \<^verbatim>\<open>int\<close>; the model counts with unbounded
  integers, which is what the code does as long as \<open>steps < 2\<^sup>3\<^sup>1\<close> (beyond that the
  increment of the counter overflows, which C++ leaves undefined).\<close>

function connectible_loop ::
  "Costmap2D \<Rightarrow> real \<Rightarrow> real \<Rightarrow> int \<Rightarrow> int \<Rightarrow> real \<Rightarrow> real \<Rightarrow> bool" where
  "connectible_loop cm x_increment y_increment steps i x y =
     (if i < steps then
        (case worldToMap cm x y of
           None \<Rightarrow> False
         | Some (mx, my) \<Rightarrow>
             if getCost cm mx my \<noteq> FREE_SPACE then False
             else connectible_loop cm x_increment y_increment steps (i + 1)
                    (fadd x x_increment) (fadd y y_increment))
      else True)"
  by pat_completeness auto
termination
  by (relation "measure (\<lambda>(cm, xi, yi, steps, i, x, y). nat (steps - i))") auto

declare connectible_loop.simps [simp del]

text \<open>The number of steps is the ceiling of the binary64 quotient of the binary64 length
  by the interpolation resolution.  A value returned by \<^verbatim>\<open>std::ceil\<close> is an integer and is
  representable, so that the division by it needs no conversion.\<close>

definition connectible :: "RRTStar \<Rightarrow> Vertex \<Rightarrow> Vertex \<Rightarrow> bool" where
  "connectible s start end_v =
     (let resolution = interpolation_resolution s;
          steps = \<lceil>fdiv (hypot (fsub (vx end_v) (vx start)) (fsub (vy end_v) (vy start)))
                    resolution\<rceil>
      in if steps > 0 then
           (let x_increment = fdiv (fsub (vx end_v) (vx start)) (of_int steps);
                y_increment = fdiv (fsub (vy end_v) (vy start)) (of_int steps)
            in connectible_loop (costmap s) x_increment y_increment steps 0
                 (vx start) (vy start))
         else True)"

text \<open>A sampled point passes when it maps to a valid cell and that cell is free space.\<close>

definition sample_free :: "Costmap2D \<Rightarrow> real \<Rightarrow> real \<Rightarrow> bool" where
  "sample_free cm x y =
     (case worldToMap cm x y of None \<Rightarrow> False | Some (mx, my) \<Rightarrow> getCost cm mx my = FREE_SPACE)"

text \<open>The number of steps \<^verbatim>\<open>connectible\<close> computes for a segment, and the points its loop
  visits when no early return fires: the values of \<open>(x, y)\<close> in rounds \<open>0\<close> to \<open>steps - 1\<close>,
  each obtained from the one before by the two additions of the loop body.\<close>

definition step_count :: "RRTStar \<Rightarrow> Vertex \<Rightarrow> Vertex \<Rightarrow> int" where
  "step_count s start end_v =
     \<lceil>fdiv (hypot (fsub (vx end_v) (vx start)) (fsub (vy end_v) (vy start)))
        (interpolation_resolution s)\<rceil>"

fun sample_points :: "real \<Rightarrow> real \<Rightarrow> nat \<Rightarrow> real \<Rightarrow> real \<Rightarrow> (real \<times> real) list" where
  "sample_points x_increment y_increment 0 x y = []"
| "sample_points x_increment y_increment (Suc n) x y =
     (x, y) # sample_points x_increment y_increment n (fadd x x_increment) (fadd y y_increment)"

definition connectible_samples :: "RRTStar \<Rightarrow> Vertex \<Rightarrow> Vertex \<Rightarrow> (real \<times> real) list" where
  "connectible_samples s start end_v =
     (let steps = step_count s start end_v
      in sample_points (fdiv (fsub (vx end_v) (vx start)) (of_int steps))
           (fdiv (fsub (vy end_v) (vy start)) (of_int steps))
           (nat steps) (vx start) (vy start))"

subsection \<open>Example grids used to instantiate the theorems\<close>

text \<open>A grid of \<open>w \<times> h\<close> unit cells with its origin at \<open>(0, 0)\<close> and the cell costs \<open>c\<close>; a world
  point maps to the cell that contains it, and to no cell when it lies outside the grid.\<close>

definition unit_grid :: "nat \<Rightarrow> nat \<Rightarrow> (nat \<Rightarrow> nat \<Rightarrow> nat) \<Rightarrow> Costmap2D" where
  "unit_grid w h c =
     \<lparr>getResolution = 1, getOriginX = 0, getOriginY = 0,
      getSizeInCellsX = w, getSizeInCellsY = h, getCost = c,
      worldToMap = (\<lambda>wx wy.
         if wx < 0 \<or> wy < 0 then None
         else if nat \<lfloor>wx\<rfloor> < w \<and> nat \<lfloor>wy\<rfloor> < h then Some (nat \<lfloor>wx\<rfloor>, nat \<lfloor>wy\<rfloor>)
         else None)\<rparr>"

definition all_free :: "nat \<Rightarrow> nat \<Rightarrow> nat" where
  "all_free mx my = FREE_SPACE"

text \<open>Every cell free except cell \<open>(bx, by)\<close>, which holds the lethal cost 254.\<close>

definition one_obstacle :: "nat \<Rightarrow> nat \<Rightarrow> nat \<Rightarrow> nat \<Rightarrow> nat" where
  "one_obstacle bx by mx my = (if mx = bx \<and> my = by then 254 else FREE_SPACE)"

definition planner_on :: "Costmap2D \<Rightarrow> real \<Rightarrow> int \<Rightarrow> RRTStar" where
  "planner_on cm res n =
     \<lparr>costmap = cm, global_frame = ''map'', max_iterations = n,
      interpolation_resolution = res, ball_radius_constant = 0, tree = []\<rparr>"


section \<open>The connection radius\<close>

text \<open>The two nested loops of \<^verbatim>\<open>calculateBallRadiusConstant\<close>.  The counter
  \<^verbatim>\<open>numFreeCells\<close> is an \<^verbatim>\<open>unsigned int\<close> and wraps around at \<open>2\<^sup>3\<^sup>2\<close>; the loop indices stay
  below the grid's sizes and cannot wrap.\<close>

function count_free_y :: "Costmap2D \<Rightarrow> nat \<Rightarrow> nat \<Rightarrow> 32 word \<Rightarrow> 32 word" where
  "count_free_y cm x y numFreeCells =
     (if y < getSizeInCellsY cm then
        count_free_y cm x (y + 1)
          (if getCost cm x y = FREE_SPACE then numFreeCells + 1 else numFreeCells)
      else numFreeCells)"
  by pat_completeness auto
termination
  by (relation "measure (\<lambda>(cm, x, y, n). getSizeInCellsY cm - y)") auto

function count_free_x :: "Costmap2D \<Rightarrow> nat \<Rightarrow> 32 word \<Rightarrow> 32 word" where
  "count_free_x cm x numFreeCells =
     (if x < getSizeInCellsX cm then
        count_free_x cm (x + 1) (count_free_y cm x 0 numFreeCells)
      else numFreeCells)"
  by pat_completeness auto
termination
  by (relation "measure (\<lambda>(cm, x, n). getSizeInCellsX cm - x)") auto

declare count_free_y.simps [simp del] count_free_x.simps [simp del]

definition calculateBallRadiusConstant :: "RRTStar \<Rightarrow> RRTStar" where
  "calculateBallRadiusConstant s =
     (let resolution = getResolution (costmap s);
          cellArea = resolution * resolution;
          numFreeCells = count_free_x (costmap s) 0 0;
          freeVolume = cellArea * real (unat numFreeCells);
          dimensions = (2 :: int);
          vUnitBall = pi;
          constant = 2 * (1 + 1 / of_int dimensions) * (freeVolume / vUnitBall) powr (1 / of_int dimensions);
          goal_area_radius = 10;
          ball_radius_factor = min goal_area_radius constant
      in s\<lparr>ball_radius_constant := ball_radius_factor\<rparr>)"

text \<open>In \<^verbatim>\<open>calculateBallRadiusConstant\<close> the base of \<^verbatim>\<open>std::pow\<close> is a free volume, which is
  not negative: there \<^verbatim>\<open>std::pow\<close> is \<open>powr\<close> (both give 0 at base 0 and the positive root
  at a positive base).\<close>

subsection \<open>\<^verbatim>\<open>calculateBallRadius\<close>\<close>

text \<open>
  \<^verbatim>\<open>calculateBallRadius\<close> takes the logarithm of the tree size and a root of a product that
  may be negative, so that its intermediate values need not be numbers: \<^verbatim>\<open>std::log(0)\<close> is
  \<open>-\<infinity>\<close>, and the root of a negative number is NaN.  A \<^verbatim>\<open>double\<close> of this function is
  therefore a NaN, an infinity or a real number, and the operations follow IEEE 754 and
  Annex F of the C standard on the special values (the sign of a zero is not represented,
  and on numbers the operations are exact).
\<close>

datatype fpval = NaN | NegInfinity | PosInfinity | Num real

text \<open>\<^verbatim>\<open>std::log\<close> of an \<^verbatim>\<open>int\<close>.\<close>

definition log_int :: "int \<Rightarrow> fpval" where
  "log_int n = (if n < 0 then NaN else if n = 0 then NegInfinity else Num (ln (of_int n)))"

text \<open>The product of a number and a value.\<close>

fun fp_times :: "real \<Rightarrow> fpval \<Rightarrow> fpval" where
  "fp_times c NaN = NaN"
| "fp_times c (Num x) = Num (c * x)"
| "fp_times c PosInfinity = (if c = 0 then NaN else if 0 < c then PosInfinity else NegInfinity)"
| "fp_times c NegInfinity = (if c = 0 then NaN else if 0 < c then NegInfinity else PosInfinity)"

text \<open>The quotient of a value by an \<^verbatim>\<open>int\<close> (converted to \<^verbatim>\<open>double\<close>; the \<^verbatim>\<open>int\<close> 0 becomes
  \<open>+0\<close>).\<close>

fun fp_div_int :: "fpval \<Rightarrow> int \<Rightarrow> fpval" where
  "fp_div_int NaN n = NaN"
| "fp_div_int (Num x) n =
     (if n \<noteq> 0 then Num (x / of_int n)
      else if x = 0 then NaN else if 0 < x then PosInfinity else NegInfinity)"
| "fp_div_int PosInfinity n = (if 0 \<le> n then PosInfinity else NegInfinity)"
| "fp_div_int NegInfinity n = (if 0 \<le> n then NegInfinity else PosInfinity)"

text \<open>\<^verbatim>\<open>std::pow(base, 1.0 / dimensions)\<close>.  For \<open>dimensions = 1\<close> the exponent is 1; for
  \<open>dimensions \<ge> 2\<close> it is positive and not an integer, so that a negative base gives NaN
  and both infinities give \<open>+\<infinity>\<close>; for \<open>dimensions = 0\<close> it is \<open>+\<infinity>\<close>; for \<open>dimensions = -1\<close>
  it is \<open>-1\<close>; below that it is negative and not an integer.  (The planner passes 2.)\<close>

definition pow_root :: "fpval \<Rightarrow> int \<Rightarrow> fpval" where
  "pow_root base dimensions =
     (if dimensions = 1 then base
      else if 2 \<le> dimensions then
        (case base of
           NaN \<Rightarrow> NaN | NegInfinity \<Rightarrow> PosInfinity | PosInfinity \<Rightarrow> PosInfinity
         | Num x \<Rightarrow> if x < 0 then NaN else Num (x powr (1 / of_int dimensions)))
      else if dimensions = 0 then
        (case base of
           NaN \<Rightarrow> NaN | NegInfinity \<Rightarrow> PosInfinity | PosInfinity \<Rightarrow> PosInfinity
         | Num x \<Rightarrow> if \<bar>x\<bar> < 1 then Num 0 else if \<bar>x\<bar> = 1 then Num 1 else PosInfinity)
      else if dimensions = - 1 then
        (case base of
           NaN \<Rightarrow> NaN | NegInfinity \<Rightarrow> Num 0 | PosInfinity \<Rightarrow> Num 0
         | Num x \<Rightarrow> if x = 0 then PosInfinity else Num (1 / x))
      else
        (case base of
           NaN \<Rightarrow> NaN | NegInfinity \<Rightarrow> Num 0 | PosInfinity \<Rightarrow> Num 0
         | Num x \<Rightarrow> if x < 0 then NaN else if x = 0 then PosInfinity
                    else Num (x powr (1 / of_int dimensions))))"

text \<open>\<^verbatim>\<open>std::min(a, b)\<close> returns \<open>b\<close> when \<open>b < a\<close> and \<open>a\<close> otherwise, so a NaN first argument
  is returned.\<close>

fun fp_min :: "fpval \<Rightarrow> real \<Rightarrow> fpval" where
  "fp_min NaN b = NaN"
| "fp_min NegInfinity b = NegInfinity"
| "fp_min PosInfinity b = Num b"
| "fp_min (Num a) b = Num (if b < a then b else a)"

definition calculateBallRadius :: "RRTStar \<Rightarrow> int \<Rightarrow> int \<Rightarrow> real \<Rightarrow> fpval" where
  "calculateBallRadius s tree_size dimensions max_connection_distance =
     (let term1 = fp_div_int (fp_times (ball_radius_constant s) (log_int tree_size)) tree_size;
          term2 = pow_root term1 dimensions
      in fp_min term2 max_connection_distance)"

text \<open>The number of free cells of the grid, as a natural number.\<close>

definition free_cell_count :: "Costmap2D \<Rightarrow> nat" where
  "free_cell_count cm =
     (\<Sum>x < getSizeInCellsX cm. \<Sum>y < getSizeInCellsY cm.
        if getCost cm x y = FREE_SPACE then 1 else 0)"

section \<open>The neighbourhood queries\<close>

text \<open>The radius that \<^verbatim>\<open>findVerticesInsideCircle\<close> is called with is a result of
  \<^verbatim>\<open>calculateBallRadius\<close>, or twice that: a value that need not be a number.  Its square is
  NaN for a NaN and \<open>+\<infinity>\<close> for an infinity, and a comparison with a NaN is false.\<close>

fun fp_square :: "fpval \<Rightarrow> fpval" where
  "fp_square NaN = NaN"
| "fp_square NegInfinity = PosInfinity"
| "fp_square PosInfinity = PosInfinity"
| "fp_square (Num r) = Num (r * r)"

fun le_fp :: "real \<Rightarrow> fpval \<Rightarrow> bool" where
  "le_fp d NaN = False"
| "le_fp d NegInfinity = False"
| "le_fp d PosInfinity = True"
| "le_fp d (Num r) = (d \<le> r)"

text \<open>The loop of \<^verbatim>\<open>findVerticesInsideCircle\<close>; \<^verbatim>\<open>std::pow(d, 2)\<close> is the square.\<close>

function findVertices_loop ::
  "Vertex list \<Rightarrow> real \<Rightarrow> real \<Rightarrow> fpval \<Rightarrow> nat \<Rightarrow> nat list \<Rightarrow> nat list" where
  "findVertices_loop t center_x center_y radius_squared i vertices_inside_circle =
     (if i < length t then
        (let distance_squared = (vx (t ! i) - center_x)\<^sup>2 + (vy (t ! i) - center_y)\<^sup>2
         in findVertices_loop t center_x center_y radius_squared (i + 1)
              (if le_fp distance_squared radius_squared then vertices_inside_circle @ [i]
               else vertices_inside_circle))
      else vertices_inside_circle)"
  by pat_completeness auto
termination
  by (relation "measure (\<lambda>(t, cx, cy, r, i, acc). length t - i)") auto

declare findVertices_loop.simps [simp del]

definition findVerticesInsideCircle :: "RRTStar \<Rightarrow> real \<Rightarrow> real \<Rightarrow> fpval \<Rightarrow> nat list" where
  "findVerticesInsideCircle s center_x center_y radius =
     findVertices_loop (tree s) center_x center_y (fp_square radius) 0 []"

definition calculate_distance :: "real \<Rightarrow> real \<Rightarrow> Vertex \<Rightarrow> real" where
  "calculate_distance px py vertex = sqrt ((vx vertex - px)\<^sup>2 + (vy vertex - py)\<^sup>2)"

text \<open>A \<^verbatim>\<open>double\<close> that starts at \<^verbatim>\<open>infinity()\<close> and is then only assigned finite costs.\<close>

datatype bound = Infinity | Finite real

fun less_bound :: "real \<Rightarrow> bound \<Rightarrow> bool" where
  "less_bound d Infinity = True"
| "less_bound d (Finite m) = (d < m)"

fun bound_less :: "bound \<Rightarrow> real \<Rightarrow> bool" where
  "bound_less Infinity d = False"
| "bound_less (Finite m) d = (m < d)"

text \<open>The range-for loop of \<^verbatim>\<open>nearest_neighbor\<close>, visiting the tree in insertion order.\<close>

function nearest_loop ::
  "Vertex list \<Rightarrow> real \<Rightarrow> real \<Rightarrow> nat \<Rightarrow> nat option \<Rightarrow> bound \<Rightarrow> nat option" where
  "nearest_loop t px py i nearest_vertex min_dist =
     (if i < length t then
        (let dist = calculate_distance px py (t ! i)
         in if less_bound dist min_dist
            then nearest_loop t px py (i + 1) (Some i) (Finite dist)
            else nearest_loop t px py (i + 1) nearest_vertex min_dist)
      else nearest_vertex)"
  by pat_completeness auto
termination
  by (relation "measure (\<lambda>(t, px, py, i, n, m). length t - i)") auto

declare nearest_loop.simps [simp del]

definition nearest_neighbor :: "RRTStar \<Rightarrow> real \<Rightarrow> real \<Rightarrow> nat option" where
  "nearest_neighbor s px py = nearest_loop (tree s) px py 0 None Infinity"

section \<open>The cost of a vertex\<close>

text \<open>
  The loop \<^verbatim>\<open>while (cur_ver != nullptr)\<close> of \<^verbatim>\<open>calculate_cost_from_start\<close> follows parent
  pointers and need not end on a cyclic parent graph, so it is a partial function: \<open>None\<close>
  is the loop that never returns (and the read through a pointer that is not a vertex of
  the tree).  The vertex passed by reference may live outside the tree (the goal vertex),
  so the first round, which reads the vertex itself, is taken out of the loop.
\<close>

partial_function (option) cost_walk :: "Vertex list \<Rightarrow> nat option \<Rightarrow> real \<Rightarrow> real option" where
  "cost_walk t cur_ver total_cost =
     (case cur_ver of
        None \<Rightarrow> Some total_cost
      | Some i \<Rightarrow>
          if i < length t then cost_walk t (parent (t ! i)) (total_cost + cost (t ! i))
          else None)"

definition calculate_cost_from_start :: "RRTStar \<Rightarrow> Vertex \<Rightarrow> real option" where
  "calculate_cost_from_start s vertex = cost_walk (tree s) (parent vertex) (0 + cost vertex)"

section \<open>Tree growth\<close>

text \<open>The rewiring loop over \<^verbatim>\<open>vertices_inside_circle\<close>; \<^verbatim>\<open>tree_.back()\<close> is the vertex that
  was just inserted.\<close>

fun rewire_loop :: "RRTStar \<Rightarrow> nat list \<Rightarrow> real \<Rightarrow> RRTStar option" where
  "rewire_loop s [] total_cost_for_new_position = Some s"
| "rewire_loop s (index # rest) total_cost_for_new_position =
     (case calculate_cost_from_start s (tree s ! index) of
        None \<Rightarrow> None
      | Some c \<Rightarrow>
          (let back = last (tree s);
               potential_cost = c + calculate_distance (vx back) (vy back) (tree s ! index)
           in if potential_cost < total_cost_for_new_position \<and> connectible s back (tree s ! index)
              then rewire_loop
                     (s\<lparr>tree := (tree s)[length (tree s) - 1 :=
                          back\<lparr>parent := Some index,
                               cost := calculate_distance (vx back) (vy back) (tree s ! index)\<rparr>]\<rparr>)
                     rest potential_cost
              else rewire_loop s rest total_cost_for_new_position))"

text \<open>One round of the growth loop for the sampled point \<open>(rand_x, rand_y)\<close>.  The result
  tells whether the vertex was inserted (\<open>True\<close>) or the sample was discarded (\<open>False\<close>, the
  branch \<^verbatim>\<open>i -= 1\<close>).  \<open>None\<close>: dereferencing the null result of \<^verbatim>\<open>nearest_neighbor\<close> on an
  empty tree, or a cost loop that does not return.\<close>

definition insert_sample :: "RRTStar \<Rightarrow> real \<Rightarrow> real \<Rightarrow> (bool \<times> RRTStar) option" where
  "insert_sample s rand_x rand_y =
     (case nearest_neighbor s rand_x rand_y of
        None \<Rightarrow> None
      | Some n \<Rightarrow>
          (let nearest = tree s ! n;
               new_position = (mk_Vertex rand_x rand_y)
                 \<lparr>parent := Some n,
                  cost := calculate_distance (vx nearest) (vy nearest) (mk_Vertex rand_x rand_y)\<rparr>
           in if connectible s nearest new_position then
                (let ball_radius = calculateBallRadius s (int (length (tree s))) 2 2;
                     vertices_inside_circle =
                       findVerticesInsideCircle s (vx new_position) (vy new_position) ball_radius;
                     s1 = s\<lparr>tree := tree s @ [new_position]\<rparr>
                 in case calculate_cost_from_start s1 (last (tree s1)) of
                      None \<Rightarrow> None
                    | Some total_cost_for_new_position \<Rightarrow>
                        (case rewire_loop s1 vertices_inside_circle total_cost_for_new_position of
                           None \<Rightarrow> None
                         | Some s2 \<Rightarrow> Some (True, s2)))
              else Some (False, s)))"

text \<open>
  The random source.  \<^verbatim>\<open>std::mt19937\<close> is modelled by the stream \<open>gen\<close> of the numbers in
  \<open>[0, 1)\<close> it yields and the position \<open>k\<close> of the next one; a
  \<^verbatim>\<open>uniform_real_distribution\<close> over \<open>[a, b)\<close> maps the number \<open>u\<close> to \<open>a + (b - a) u\<close>.
\<close>

definition uniform_real :: "real \<times> real \<Rightarrow> real \<Rightarrow> real" where
  "uniform_real dis u = fst dis + (snd dis - fst dis) * u"

record sampler =
  x_dis :: "real \<times> real"
  y_dis :: "real \<times> real"
  goal_x_dis :: "real \<times> real"
  goal_y_dis :: "real \<times> real"
  gen :: "nat \<Rightarrow> real"

text \<open>The two draws at the head of a round of the growth loop with counter \<open>i\<close>, taken at
  position \<open>k\<close> of the stream: every fifth round samples around the goal.\<close>

definition draw_sample :: "sampler \<Rightarrow> int \<Rightarrow> nat \<Rightarrow> real \<times> real" where
  "draw_sample rnd i k =
     (let rand_x = (if i mod 5 = 0 then uniform_real (goal_x_dis rnd) (gen rnd k)
                    else uniform_real (x_dis rnd) (gen rnd k));
          rand_y = (if i mod 5 = 0 then uniform_real (goal_y_dis rnd) (gen rnd (k + 1))
                    else uniform_real (y_dis rnd) (gen rnd (k + 1)))
      in (rand_x, rand_y))"

text \<open>The growth loop \<^verbatim>\<open>for (int i = 1; i <= max_iterations_ - 1; ++i)\<close>.  A discarded sample
  runs \<^verbatim>\<open>i -= 1\<close> before the loop's \<^verbatim>\<open>++i\<close>.  The loop need not end (every sample may be
  discarded), so it is a partial function.\<close>

partial_function (option) grow :: "sampler \<Rightarrow> int \<Rightarrow> nat \<Rightarrow> RRTStar \<Rightarrow> RRTStar option" where
  "grow rnd i k s =
     (if i \<le> max_iterations s - 1 then
        (case draw_sample rnd i k of
           (rand_x, rand_y) \<Rightarrow>
             (case insert_sample s rand_x rand_y of
                None \<Rightarrow> None
              | Some (inserted, s') \<Rightarrow>
                  if inserted then grow rnd (i + 1) (k + 2) s'
                  else grow rnd (i - 1 + 1) (k + 2) s'))
      else Some s)"

section \<open>Goal connection and path extraction\<close>

text \<open>A pose of the path: the frame id of its header and its position (the time stamp and
  the orientation are not modelled; no property below reads them).  A default-constructed
  pose has the empty frame id.\<close>

record PoseStamped =
  frame_id :: string
  position_x :: real
  position_y :: real
  position_z :: real

definition pose_at :: "real \<Rightarrow> real \<Rightarrow> PoseStamped" where
  "pose_at px py = \<lparr>frame_id = [], position_x = px, position_y = py, position_z = 0\<rparr>"

text \<open>The scan \<^verbatim>\<open>for (size_t j = 0; j < vertices_inside_circle.size(); ++j)\<close> of the goal
  connector, which updates \<^verbatim>\<open>end_vertex\<close> and \<^verbatim>\<open>min_cost\<close>.\<close>

fun goal_scan ::
  "RRTStar \<Rightarrow> real \<Rightarrow> real \<Rightarrow> nat list \<Rightarrow> Vertex \<Rightarrow> bound \<Rightarrow> (Vertex \<times> bound) option" where
  "goal_scan s gx gy [] end_vertex min_cost = Some (end_vertex, min_cost)"
| "goal_scan s gx gy (index # rest) end_vertex min_cost =
     (case calculate_cost_from_start s (tree s ! index) of
        None \<Rightarrow> None
      | Some c \<Rightarrow>
          (let potential_cost = c + calculate_distance gx gy (tree s ! index)
           in if less_bound potential_cost min_cost \<and> connectible s end_vertex (tree s ! index)
              then goal_scan s gx gy rest
                     (end_vertex\<lparr>parent := Some index,
                                 cost := calculate_distance gx gy (tree s ! index)\<rparr>)
                     (Finite potential_cost)
              else goal_scan s gx gy rest end_vertex min_cost))"

text \<open>The densification loop \<^verbatim>\<open>for (int i = 0; i < steps - 1; ++i)\<close>, with its binary64
  additions; every pose is inserted at the front of the path.  When the vertex and its
  parent coincide, \<open>steps\<close> is 0, the loop does not run and the increments (a division by
  zero) are not used.\<close>

function interpolate_loop ::
  "real \<Rightarrow> real \<Rightarrow> int \<Rightarrow> int \<Rightarrow> real \<Rightarrow> real \<Rightarrow> PoseStamped list \<Rightarrow> PoseStamped list" where
  "interpolate_loop x_increment y_increment steps i x y poses =
     (if i < steps - 1 then
        interpolate_loop x_increment y_increment steps (i + 1)
          (fadd x x_increment) (fadd y y_increment)
          (pose_at (fadd x x_increment) (fadd y y_increment) # poses)
      else poses)"
  by pat_completeness auto
termination
  by (relation "measure (\<lambda>(xi, yi, steps, i, x, y, poses). nat (steps - 1 - i))") auto

declare interpolate_loop.simps [simp del]

text \<open>The walk \<^verbatim>\<open>while (cur_ver)\<close> from the goal vertex along the parent pointers.  The
  current vertex is held by value, because the walk starts at the local \<^verbatim>\<open>end_vertex\<close>.\<close>

partial_function (option) back_walk ::
  "Vertex list \<Rightarrow> Vertex option \<Rightarrow> PoseStamped list \<Rightarrow> PoseStamped list option" where
  "back_walk t cur_ver poses =
     (case cur_ver of
        None \<Rightarrow> Some poses
      | Some v \<Rightarrow>
          (let poses1 = pose_at (vx v) (vy v) # poses
           in case parent v of
                None \<Rightarrow> back_walk t None poses1
              | Some p \<Rightarrow>
                  if p < length t then
                    (let par = t ! p;
                         steps = \<lceil>fmul (hypot (fsub (vx v) (vx par)) (fsub (vy v) (vy par))) 10\<rceil>;
                         x_increment = fdiv (fsub (vx par) (vx v)) (of_int steps);
                         y_increment = fdiv (fsub (vy par) (vy v)) (of_int steps)
                     in back_walk t (Some par)
                          (interpolate_loop x_increment y_increment steps 0 (vx v) (vy v) poses1))
                  else None))"

text \<open>The loop \<^verbatim>\<open>while (true)\<close> of the goal connector: its only exit is the \<^verbatim>\<open>break\<close> after
  an accepted scan, so it is a partial function, and \<open>None\<close> stands for the call that
  does not return.  (A round that is not accepted changes nothing but the local goal
  vertex, so the rounds repeat without observable effect; C++ gives no meaning to a
  program that does this forever, and \<open>None\<close> stands for the absence of a defined result.)\<close>

partial_function (option) goal_loop ::
  "RRTStar \<Rightarrow> real \<Rightarrow> real \<Rightarrow> nat list \<Rightarrow> Vertex \<Rightarrow> PoseStamped list
     \<Rightarrow> (RRTStar \<times> PoseStamped list) option" where
  "goal_loop s gx gy vertices_inside_circle end_vertex poses =
     (case goal_scan s gx gy vertices_inside_circle end_vertex Infinity of
        None \<Rightarrow> None
      | Some (end_vertex', min_cost) \<Rightarrow>
          if bound_less min_cost 10000 then
            (let s' = s\<lparr>tree := tree s @ [end_vertex']\<rparr>
             in case back_walk (tree s') (Some end_vertex') poses of
                  None \<Rightarrow> None
                | Some poses' \<Rightarrow> Some (s', poses'))
          else goal_loop s gx gy vertices_inside_circle end_vertex' poses)"

text \<open>\<^verbatim>\<open>configure\<close> sets the budget to 1000 and reads the interpolation resolution
  parameter (declared with the default 0.01).\<close>

definition configure :: "RRTStar \<Rightarrow> string \<Rightarrow> Costmap2D \<Rightarrow> real \<Rightarrow> RRTStar" where
  "configure s frame cm resolution_parameter =
     s\<lparr>costmap := cm, global_frame := frame, max_iterations := 1000,
       interpolation_resolution := resolution_parameter\<rparr>"

text \<open>\<^verbatim>\<open>createPlan\<close> up to, but not including, the call of \<^verbatim>\<open>smoothPath\<close>: the raw path.
  \<open>stream\<close> is the stream of numbers the call's freshly seeded generator yields.\<close>

definition createPlan_raw ::
  "RRTStar \<Rightarrow> PoseStamped \<Rightarrow> PoseStamped \<Rightarrow> (nat \<Rightarrow> real) \<Rightarrow> (RRTStar \<times> PoseStamped list) option" where
  "createPlan_raw s start goal stream =
     (if frame_id start \<noteq> global_frame s then Some (s, [])
      else if frame_id goal \<noteq> global_frame s then Some (s, [])
      else
        (let s1 = calculateBallRadiusConstant s;
             cm = costmap s1;
             rnd = \<lparr>x_dis = (getOriginX cm,
                              getOriginX cm + real (getSizeInCellsX cm) * getResolution cm),
                    y_dis = (getOriginY cm,
                              getOriginY cm + real (getSizeInCellsY cm) * getResolution cm),
                    goal_x_dis = (position_x goal - 5, position_x goal + 5),
                    goal_y_dis = (position_y goal - 5, position_y goal + 5),
                    gen = stream\<rparr>;
             start_vertex = (mk_Vertex (position_x start) (position_y start))\<lparr>cost := 0\<rparr>;
             s2 = s1\<lparr>tree := [start_vertex]\<rparr>;
             end_vertex = mk_Vertex (position_x goal) (position_y goal);
             pose = \<lparr>frame_id = [], position_x = position_x goal,
                     position_y = position_y goal, position_z = 0\<rparr>;
             global_path = [pose]
         in case grow rnd 1 0 s2 of
              None \<Rightarrow> None
            | Some s3 \<Rightarrow>
                (let ball_radius = fp_times 2 (calculateBallRadius s3 (int (length (tree s3))) 2 2);
                     vertices_inside_circle =
                       findVerticesInsideCircle s3 (position_x goal) (position_y goal) ball_radius
                 in goal_loop s3 (position_x goal) (position_y goal) vertices_inside_circle
                      end_vertex global_path)))"

section \<open>The invariant of the search tree\<close>

text \<open>Every parent link points to a vertex that was inserted earlier.\<close>

definition parents_below :: "Vertex list \<Rightarrow> bool" where
  "parents_below t \<longleftrightarrow> (\<forall>i < length t. \<forall>p. parent (t ! i) = Some p \<longrightarrow> p < i)"

text \<open>The first element is the start vertex, with edge cost 0 and no parent; every other
  vertex has a non-negative edge cost and a parent that was inserted before it.\<close>

definition tree_ok :: "real \<Rightarrow> real \<Rightarrow> Vertex list \<Rightarrow> bool" where
  "tree_ok sx sy t \<longleftrightarrow>
     t \<noteq> [] \<and> t ! 0 = \<lparr>vx = sx, vy = sy, cost = 0, parent = None\<rparr> \<and>
     (\<forall>i < length t. 0 < i \<longrightarrow> 0 \<le> cost (t ! i) \<and> (\<exists>p < i. parent (t ! i) = Some p))"

text \<open>The parent chain of vertex \<open>i\<close> ends at the root (vertex 0, the one without a parent)
  after at most \<open>n\<close> parent links.\<close>

fun reaches_root :: "Vertex list \<Rightarrow> nat \<Rightarrow> nat \<Rightarrow> bool" where
  "reaches_root t n i =
     (i < length t \<and>
      (case parent (t ! i) of
         None \<Rightarrow> i = 0
       | Some p \<Rightarrow> (case n of 0 \<Rightarrow> False | Suc m \<Rightarrow> reaches_root t m p)))"

section \<open>An example planning call\<close>

text \<open>A corridor of eight unit cells whose seventh cell is occupied, an interpolation
  resolution of 1 and a budget of two iterations.  The start is in the first cell, the goal
  in the sixth.  The random source first yields a sample in the last cell, behind the
  obstacle, and then a sample at the goal position.\<close>

definition corridor :: Costmap2D where
  "corridor = unit_grid 8 1 (one_obstacle 6 0)"

definition example_planner :: RRTStar where
  "example_planner = planner_on corridor 1 2"

definition example_start :: PoseStamped where
  "example_start = \<lparr>frame_id = ''map'', position_x = 1/2, position_y = 1/2, position_z = 0\<rparr>"

definition example_goal :: PoseStamped where
  "example_goal = \<lparr>frame_id = ''map'', position_x = 11/2, position_y = 1/2, position_z = 0\<rparr>"

definition example_stream :: "nat \<Rightarrow> real" where
  "example_stream k = (if k = 0 then 15/16 else if k = 2 then 11/16 else 1/2)"

definition example_sampler :: sampler where
  "example_sampler =
     \<lparr>x_dis = (0, 8), y_dis = (0, 1), goal_x_dis = (11/2 - 5, 11/2 + 5),
      goal_y_dis = (1/2 - 5, 1/2 + 5), gen = example_stream\<rparr>"

text \<open>The tree before growth, and after the one insertion the budget allows.\<close>

definition example_root :: Vertex where
  "example_root = \<lparr>vx = 1/2, vy = 1/2, cost = 0, parent = None\<rparr>"

definition example_vertex :: Vertex where
  "example_vertex = \<lparr>vx = 11/2, vy = 1/2, cost = 5, parent = Some 0\<rparr>"

definition example_seeded :: RRTStar where
  "example_seeded = (calculateBallRadiusConstant example_planner)\<lparr>tree := [example_root]\<rparr>"

definition example_grown :: RRTStar where
  "example_grown =
     (calculateBallRadiusConstant example_planner)\<lparr>tree := [example_root, example_vertex]\<rparr>"

text \<open>A second example, for the rewiring step: a free hall of six unit cells and a tree of
  three vertices on one line, the third reached by a detour over the second.  The sample
  at \<open>(1.5, 0.5)\<close> is nearest to the third vertex, but cheaper to reach from the root.\<close>

definition hall :: Costmap2D where
  "hall = unit_grid 6 1 all_free"

definition rewire_planner :: RRTStar where
  "rewire_planner =
     \<lparr>costmap = hall, global_frame = ''map'', max_iterations = 1000,
      interpolation_resolution = 1, ball_radius_constant = 10,
      tree = [\<lparr>vx = 1/2, vy = 1/2, cost = 0, parent = None\<rparr>,
              \<lparr>vx = 9/2, vy = 1/2, cost = 4, parent = Some 0\<rparr>,
              \<lparr>vx = 2, vy = 1/2, cost = 5/2, parent = Some 1\<rparr>]\<rparr>"

definition rewire_result :: RRTStar where
  "rewire_result =
     rewire_planner\<lparr>tree := tree rewire_planner @ [\<lparr>vx = 3/2, vy = 1/2, cost = 1, parent = Some 0\<rparr>]\<rparr>"

section \<open>The smoother\<close>

text \<open>
  The loop \<^verbatim>\<open>for (double t = 0; t <= 1.0; t += 0.05)\<close> of \<^verbatim>\<open>smoothPath\<close> is controlled by
  a \<^verbatim>\<open>double\<close> that accumulates rounding errors, so its counter is modelled bit-exactly:
  a finite binary64 number is a pair of an integer significand and an exponent, with the
  value \<open>significand \<times> 2\<^sup>e\<^sup>x\<^sup>p\<^sup>o\<^sup>n\<^sup>e\<^sup>n\<^sup>t\<close>, and the sum of two numbers is the exact sum rounded to
  53 significant bits, ties to the even significand (the default rounding of IEEE 754).
  Overflow and subnormal numbers are not modelled; the counter stays between 0 and 2.
\<close>

datatype double = Double (significand: int) (exponent: int)

definition dval :: "double \<Rightarrow> real" where
  "dval d = (if 0 \<le> exponent d then of_int (significand d) * 2 ^ nat (exponent d)
             else of_int (significand d) / 2 ^ nat (- exponent d))"

text \<open>Rounding the exact number \<open>m \<times> 2\<^sup>e\<close> to 53 significant bits.\<close>

definition round53 :: "int \<Rightarrow> int \<Rightarrow> double" where
  "round53 m e =
     (if bitlen \<bar>m\<bar> \<le> 53 then Double m e
      else
        (let k = nat (bitlen \<bar>m\<bar> - 53);
             q = m div 2 ^ k;
             r = m mod 2 ^ k;
             half = 2 ^ (k - 1)
         in if half < r \<or> (r = half \<and> odd q) then Double (q + 1) (e + int k)
            else Double q (e + int k)))"

definition dadd :: "double \<Rightarrow> double \<Rightarrow> double" where
  "dadd a b =
     (let e = min (exponent a) (exponent b)
      in round53 (significand a * 2 ^ nat (exponent a - e) + significand b * 2 ^ nat (exponent b - e)) e)"

definition dle :: "double \<Rightarrow> double \<Rightarrow> bool" where
  "dle a b =
     (let e = min (exponent a) (exponent b)
      in significand a * 2 ^ nat (exponent a - e) \<le> significand b * 2 ^ nat (exponent b - e))"

text \<open>The literals \<^verbatim>\<open>0\<close>, \<^verbatim>\<open>1.0\<close> and \<^verbatim>\<open>0.05\<close>; the last is the binary64 number nearest to
  \<open>1/20\<close>, which is \<open>7205759403792794 \<times> 2\<^sup>-\<^sup>5\<^sup>7\<close> (hexadecimal \<^verbatim>\<open>0x1.999999999999ap-5\<close>).\<close>

definition d_zero :: double where
  "d_zero = Double 0 0"

definition d_one :: double where
  "d_one = Double 1 0"

definition d_step :: double where
  "d_step = Double 7205759403792794 (- 57)"

text \<open>\<^verbatim>\<open>computeBezierPoint\<close>; \<^verbatim>\<open>std::pow(b, 2)\<close> and \<^verbatim>\<open>std::pow(b, 3)\<close> are powers, and the
  arithmetic on the coordinates is real arithmetic.\<close>

definition computeBezierPoint ::
  "PoseStamped \<Rightarrow> PoseStamped \<Rightarrow> PoseStamped \<Rightarrow> PoseStamped \<Rightarrow> real \<Rightarrow> PoseStamped" where
  "computeBezierPoint P0 P1 P2 P3 t =
     (let x = (1 - t) ^ 3 * position_x P0 + 3 * (1 - t) ^ 2 * t * position_x P1 +
              3 * (1 - t) * t ^ 2 * position_x P2 + t ^ 3 * position_x P3;
          y = (1 - t) ^ 3 * position_y P0 + 3 * (1 - t) ^ 2 * t * position_y P1 +
              3 * (1 - t) * t ^ 2 * position_y P2 + t ^ 3 * position_y P3
      in \<lparr>frame_id = [], position_x = x, position_y = y, position_z = 0\<rparr>)"

text \<open>The inner loop over \<open>t\<close>.  Whether it ends depends on the rounded sums, so it is a
  partial function.\<close>

partial_function (option) bezier_loop ::
  "PoseStamped \<Rightarrow> PoseStamped \<Rightarrow> PoseStamped \<Rightarrow> PoseStamped \<Rightarrow> double \<Rightarrow> PoseStamped list
     \<Rightarrow> PoseStamped list option" where
  "bezier_loop P0 P1 P2 P3 t smoothed_poses =
     (if dle t d_one then
        bezier_loop P0 P1 P2 P3 (dadd t d_step)
          (smoothed_poses @ [computeBezierPoint P0 P1 P2 P3 (dval t)])
      else Some smoothed_poses)"

text \<open>The outer loop \<^verbatim>\<open>for (size_t i = 1; i < path.poses.size() - 2; ++i)\<close>; it runs only
  on paths of at least four poses, so the unsigned subtraction does not wrap.\<close>

function window_loop :: "PoseStamped list \<Rightarrow> nat \<Rightarrow> PoseStamped list \<Rightarrow> PoseStamped list option" where
  "window_loop poses i smoothed_poses =
     (if i < length poses - 2 then
        (case bezier_loop (poses ! (i - 1)) (poses ! i) (poses ! (i + 1)) (poses ! (i + 2))
                d_zero smoothed_poses of
           None \<Rightarrow> None
         | Some smoothed_poses' \<Rightarrow> window_loop poses (i + 1) smoothed_poses')
      else Some smoothed_poses)"
  by pat_completeness auto
termination
  by (relation "measure (\<lambda>(poses, i, sm). length poses - 2 - i)") auto

declare window_loop.simps [simp del]

definition smoothPath :: "PoseStamped list \<Rightarrow> PoseStamped list option" where
  "smoothPath poses =
     (if length poses < 4 then Some poses
      else
        (case window_loop poses 1 [poses ! 0] of
           None \<Rightarrow> None
         | Some smoothed_poses \<Rightarrow> Some (smoothed_poses @ [last poses])))"

definition createPlan ::
  "RRTStar \<Rightarrow> PoseStamped \<Rightarrow> PoseStamped \<Rightarrow> (nat \<Rightarrow> real) \<Rightarrow> (RRTStar \<times> PoseStamped list) option" where
  "createPlan s start goal stream =
     (if frame_id start \<noteq> global_frame s \<or> frame_id goal \<noteq> global_frame s
      then createPlan_raw s start goal stream
      else
        (case createPlan_raw s start goal stream of
           None \<Rightarrow> None
         | Some (s', global_path) \<Rightarrow>
             (case smoothPath global_path of
                None \<Rightarrow> None
              | Some smoothed \<Rightarrow> Some (s', smoothed))))"

text \<open>The values the counter \<open>t\<close> takes in the rounds of the inner loop that starts at \<open>t\<close>,
  for at most \<open>n\<close> rounds.\<close>

fun loop_parameters :: "nat \<Rightarrow> double \<Rightarrow> double list" where
  "loop_parameters 0 t = []"
| "loop_parameters (Suc n) t =
     (if dle t d_one then t # loop_parameters n (dadd t d_step) else [])"

definition bezier_parameters :: "double list" where
  "bezier_parameters = loop_parameters 100 d_zero"
section \<open>Properties of the binary64 rounding\<close>

lemma round_ties_even_of_int: "round_ties_even (of_int n) = n"
  by (simp add: round_ties_even_def)

lemma rnd64_0: "rnd64 0 = 0"
  by (simp add: rnd64_def)

text \<open>The spacing around \<open>x\<close> is \<open>2\<^sup>q\<close> when \<open>2\<^sup>q\<^sup>+\<^sup>5\<^sup>2 \<le> |x| < 2\<^sup>q\<^sup>+\<^sup>5\<^sup>3\<close>.\<close>

lemma quantum_eq:
  assumes "2 powr of_int (q + 52) \<le> \<bar>x\<bar>" and "\<bar>x\<bar> < 2 powr of_int (q + 53)" and "- 1074 \<le> q"
  shows "quantum x = q"
proof -
  have pos: "0 < \<bar>x\<bar>"
    using assms(1) by (smt (verit) powr_gt_zero)
  have "q + 53 = (q + 52) + 1" by simp
  with assms(2) have "\<bar>x\<bar> < 2 powr of_int ((q + 52) + 1)" by simp
  with assms(1) pos have "\<lfloor>log 2 \<bar>x\<bar>\<rfloor> = q + 52"
    by (subst floor_log_eq_powr_iff) simp_all
  with assms(3) show ?thesis by (simp add: quantum_def)
qed

text \<open>Rounding a number whose magnitude, scaled by \<open>2\<^sup>k\<close>, lies in \<open>[2\<^sup>5\<^sup>2, 2\<^sup>5\<^sup>3)\<close>: the scaled
  number is rounded to an integer.\<close>

lemma rnd64_eval:
  assumes "2 ^ 52 \<le> \<bar>x\<bar> * 2 ^ k" and "\<bar>x\<bar> * 2 ^ k < 2 ^ 53" and "k \<le> 1074"
  shows "rnd64 x = of_int (round_ties_even (x * 2 ^ k)) / 2 ^ k"
proof -
  have p: "(2 :: real) powr of_int (- int k) = 1 / 2 ^ k"
    by (simp add: powr_minus powr_realpow divide_simps)
  have a: "(2 :: real) powr of_int (- int k + 52) = 2 ^ 52 / 2 ^ k"
    using powr_add [of "2 :: real" "of_int (- int k)" 52] p by (simp add: powr_realpow [symmetric])
  have b: "(2 :: real) powr of_int (- int k + 53) = 2 ^ 53 / 2 ^ k"
    using powr_add [of "2 :: real" "of_int (- int k)" 53] p by (simp add: powr_realpow [symmetric])
  have "quantum x = - int k"
  proof (rule quantum_eq)
    show "2 powr of_int (- int k + 52) \<le> \<bar>x\<bar>"
      unfolding a using assms(1) by (simp add: divide_simps)
    show "\<bar>x\<bar> < 2 powr of_int (- int k + 53)"
      unfolding b using assms(2) by (simp add: divide_simps)
    show "- 1074 \<le> - int k" using assms(3) by simp
  qed
  moreover have "x \<noteq> 0" using assms(1) by auto
  ultimately have "rnd64 x =
      of_int (round_ties_even (x / 2 powr of_int (- int k))) * 2 powr of_int (- int k)"
    by (simp only: rnd64_def if_False)
  then show ?thesis
    by (simp only: p) simp
qed

text \<open>A representable number is rounded to itself.\<close>

lemma rnd64_exact:
  assumes "\<bar>m\<bar> < 2 ^ 53" and "- 1074 \<le> e"
  shows "rnd64 (of_int m * 2 powr of_int e) = of_int m * 2 powr of_int e"
proof (cases "m = 0")
  case True
  then show ?thesis by (simp add: rnd64_0)
next
  case False
  define x :: real where "x = of_int m * 2 powr of_int e"
  have x0: "x \<noteq> 0" using False by (simp add: x_def)
  have am: "0 < \<bar>real_of_int m\<bar>" using False by simp
  have "\<bar>real_of_int m\<bar> < 2 ^ 53"
    using assms(1) by (metis of_int_abs of_int_less_numeral_power_cancel_iff)
  then have "\<bar>real_of_int m\<bar> < 2 powr 53" by (simp add: powr_realpow [symmetric])
  then have "log 2 \<bar>real_of_int m\<bar> < 53"
    using am by (subst log_less_iff) simp_all
  moreover have "log 2 \<bar>x\<bar> = log 2 \<bar>real_of_int m\<bar> + of_int e"
    using am by (simp add: x_def abs_mult log_mult)
  ultimately have "log 2 \<bar>x\<bar> < of_int (53 + e)" by simp
  then have "\<lfloor>log 2 \<bar>x\<bar>\<rfloor> < 53 + e" by (simp only: floor_less_iff)
  then have "quantum x \<le> e" using assms(2) by (simp add: quantum_def)
  define q where "q = quantum x"
  have q: "q \<le> e" using \<open>quantum x \<le> e\<close> by (simp add: q_def)
  define d where "d = nat (e - q)"
  have e: "e = q + int d" using q by (simp add: d_def)
  have "(2 :: real) powr of_int (q + int d) = 2 powr of_int q * 2 powr of_int (int d)"
    by (simp add: powr_add)
  then have pe: "(2 :: real) powr of_int e = 2 powr of_int q * 2 powr of_int (int d)"
    by (simp only: e [symmetric])
  have xq: "x = of_int m * (2 powr of_int q * 2 powr of_int (int d))"
    by (simp only: x_def pe)
  have "x / 2 powr of_int q = of_int m * 2 powr of_int (int d)"
    by (subst xq) simp
  also have "\<dots> = of_int (m * 2 ^ d)" by (simp add: powr_realpow)
  finally have "round_ties_even (x / 2 powr of_int q) = m * 2 ^ d"
    by (simp only: round_ties_even_of_int)
  then have "rnd64 x = of_int (m * 2 ^ d) * 2 powr of_int q"
    using x0 by (simp add: rnd64_def q_def)
  also have "\<dots> = of_int m * (2 powr of_int q * 2 powr of_int (int d))"
    by (simp add: powr_realpow)
  also have "\<dots> = x" by (simp only: xq [symmetric])
  finally show ?thesis by (simp only: x_def)
qed

lemma rnd64_of_int: "\<bar>m\<bar> < 2 ^ 53 \<Longrightarrow> rnd64 (of_int m) = of_int m"
  using rnd64_exact [of m 0] by simp

lemma rnd64_dyadic:
  assumes "\<bar>m\<bar> < 2 ^ 53" and "k \<le> 1074"
  shows "rnd64 (of_int m / 2 ^ k) = of_int m / 2 ^ k"
proof -
  have "(2 :: real) powr of_int (- int k) = 1 / 2 ^ k"
    by (simp add: powr_minus powr_realpow divide_simps)
  with rnd64_exact [OF assms(1), of "- int k"] assms(2) show ?thesis by simp
qed

lemma rnd64_of_nat: "n < 2 ^ 53 \<Longrightarrow> rnd64 (real n) = real n"
  using rnd64_of_int [of "int n"] by simp

lemma rnd64_half_odd: "n < 2 ^ 52 \<Longrightarrow> rnd64 (1/2 + real n) = 1/2 + real n"
proof -
  assume "n < 2 ^ 52"
  then have "\<bar>int (2 * n + 1)\<bar> < 2 ^ 53" by simp
  from rnd64_dyadic [OF this, of 1] show ?thesis by (simp add: field_simps)
qed

lemma rnd64_1: "rnd64 1 = 1"
  using rnd64_of_int [of 1] by simp

lemma rnd64_numeral: "numeral a < (2 :: int) ^ 53 \<Longrightarrow> rnd64 (numeral a) = numeral a"
  using rnd64_of_int [of "numeral a"] by simp

lemma rnd64_neg_numeral: "numeral a < (2 :: int) ^ 53 \<Longrightarrow> rnd64 (- numeral a) = - numeral a"
  using rnd64_of_int [of "- numeral a"] by simp

lemma rnd64_half: "rnd64 (1/2) = 1/2"
  using rnd64_dyadic [of 1 1] by simp

lemma rnd64_numeral_half:
  "numeral a < (2 :: int) ^ 53 \<Longrightarrow> rnd64 (numeral a / 2) = numeral a / 2"
  using rnd64_dyadic [of "numeral a" 1] by simp

lemma rnd64_neg_half: "rnd64 (- (1/2)) = - (1/2)"
  using rnd64_dyadic [of "- 1" 1] by simp

lemma rnd64_abs: "rnd64 \<bar>x\<bar> = \<bar>rnd64 x\<bar>"
proof -
  have "round_ties_even (- y) = - round_ties_even y" for y
  proof -
    consider "y = of_int \<lfloor>y\<rfloor>" | "y \<noteq> of_int \<lfloor>y\<rfloor>" by blast
    then show ?thesis
    proof cases
      case 1
      then obtain n where "y = of_int n" ..
      then show ?thesis
        by (simp add: round_ties_even_of_int flip: of_int_minus)
    next
      case 2
      have "y \<noteq> of_int n" for n
      proof
        assume "y = of_int n"
        then have "y = of_int \<lfloor>y\<rfloor>" by simp
        with 2 show False by simp
      qed
      then have c: "\<lceil>y\<rceil> = \<lfloor>y\<rfloor> + 1"
        by (simp add: ceiling_altdef)
      have f: "\<lfloor>- y\<rfloor> = - \<lfloor>y\<rfloor> - 1"
        using c by (simp add: floor_minus)
      have lt: "of_int \<lfloor>y\<rfloor> < y" using 2 of_int_floor_le [of y] by linarith
      show ?thesis
        unfolding round_ties_even_def Let_def f
        using lt by (auto simp: field_simps)
    qed
  qed
  then have neg: "rnd64 (- y) = - rnd64 y" for y
    by (simp add: rnd64_def quantum_def flip: minus_divide_left)
  have "0 \<le> round_ties_even y" if "0 \<le> y" for y
  proof -
    from that have "0 \<le> \<lfloor>y\<rfloor>" by simp
    then show ?thesis by (simp add: round_ties_even_def Let_def)
  qed
  then have nonneg: "0 \<le> rnd64 y" if "0 \<le> y" for y
    using that by (simp add: rnd64_def)
  show ?thesis
  proof (cases "0 \<le> x")
    case True
    with nonneg [of x] show ?thesis by simp
  next
    case False
    then have "0 \<le> rnd64 (- x)" by (intro nonneg) simp
    with False show ?thesis by (simp add: neg)
  qed
qed

text \<open>The model of \<^verbatim>\<open>std::hypot\<close> on a segment parallel to the x axis.\<close>

lemma hypot_zero_right: "hypot a 0 = \<bar>rnd64 a\<bar>"
  by (simp add: hypot_def rnd64_abs)

lemma hypot_zero_zero: "hypot 0 0 = 0"
  by (simp add: hypot_def rnd64_0)

lemma fsub_self: "fsub a a = 0"
  by (simp add: fsub_def rnd64_0)

lemma fdiv_zero_left: "fdiv 0 b = 0"
  by (simp add: fdiv_def rnd64_0)

lemma fadd_zero_right: "fadd a 0 = rnd64 a"
  by (simp add: fadd_def)

lemma costmap_planner_on: "costmap (planner_on cm res n) = cm"
  by (simp add: planner_on_def)

section \<open>Properties of the local planner\<close>

lemma connectible_loop_iff:
  "connectible_loop cm xi yi steps i x y \<longleftrightarrow>
     (\<forall>p \<in> set (sample_points xi yi (nat (steps - i)) x y). sample_free cm (fst p) (snd p))"
proof (induction cm xi yi steps i x y rule: connectible_loop.induct)
  case (1 cm xi yi steps i x y)
  show ?case
  proof (cases "i < steps")
    case False
    then show ?thesis by (subst connectible_loop.simps) simp
  next
    case True
    then have n: "nat (steps - i) = Suc (nat (steps - (i + 1)))"
      by linarith
    show ?thesis
    proof (cases "sample_free cm x y")
      case False
      then have "\<not> connectible_loop cm xi yi steps i x y"
        using True by (subst connectible_loop.simps) (auto simp: sample_free_def split: option.splits)
      with False n show ?thesis by simp
    next
      case free: True
      then obtain mx my where c: "worldToMap cm x y = Some (mx, my)" "getCost cm mx my = FREE_SPACE"
        by (auto simp: sample_free_def split: option.splits)
      have "connectible_loop cm xi yi steps i x y =
          connectible_loop cm xi yi steps (i + 1) (fadd x xi) (fadd y yi)"
        by (subst connectible_loop.simps) (simp add: True c)
      also have "\<dots> \<longleftrightarrow> (\<forall>p \<in> set (sample_points xi yi (nat (steps - (i + 1))) (fadd x xi) (fadd y yi)).
          sample_free cm (fst p) (snd p))"
        using "1.IH" [OF True c(1) refl] c(2) by simp
      finally show ?thesis using free n by simp
    qed
  qed
qed

lemma length_sample_points: "length (sample_points xi yi n x y) = n"
  by (induction n arbitrary: x y) simp_all

lemma sample_points_first: "0 < n \<Longrightarrow> sample_points xi yi n x y ! 0 = (x, y)"
  by (cases n) simp_all

lemma sample_points_next:
  "Suc k < n \<Longrightarrow>
     sample_points xi yi n x y ! Suc k =
       (fadd (fst (sample_points xi yi n x y ! k)) xi, fadd (snd (sample_points xi yi n x y ! k)) yi)"
proof (induction k arbitrary: n x y)
  case 0
  then obtain m where "n = Suc (Suc m)" by (cases n; cases "n - 1") simp_all
  then show ?case by simp
next
  case (Suc k)
  then obtain m where n: "n = Suc m" and m: "Suc k < m" by (cases n) simp_all
  from Suc.IH [OF m, of "fadd x xi" "fadd y yi"] show ?case
    by (simp add: n)
qed

lemma connectible_iff_samples:
  "connectible s A B \<longleftrightarrow>
     (\<forall>p \<in> set (connectible_samples s A B). sample_free (costmap s) (fst p) (snd p))"
proof (cases "step_count s A B > 0")
  case True
  then show ?thesis
    unfolding connectible_def connectible_samples_def Let_def step_count_def [symmetric]
    by (simp add: connectible_loop_iff)
next
  case False
  then have "nat (step_count s A B) = 0" by simp
  with False show ?thesis
    unfolding connectible_def connectible_samples_def Let_def step_count_def [symmetric]
    by simp
qed

lemma step_count_self: "step_count s A A = 0"
  by (simp add: step_count_def fsub_self hypot_zero_zero fdiv_zero_left)

lemma connectible_self: "connectible s A A"
  by (simp add: connectible_def fsub_self hypot_zero_zero fdiv_zero_left)

lemma length_connectible_samples:
  "length (connectible_samples s A B) = nat (step_count s A B)"
  by (simp add: connectible_samples_def Let_def length_sample_points)

text \<open>Evaluating the samples of a segment from the values of the intermediate
  operations.\<close>

lemma connectible_samples_eval:
  assumes "fsub (vx B) (vx A) = dx" and "fsub (vy B) (vy A) = dy"
    and "\<lceil>fdiv (hypot dx dy) (interpolation_resolution s)\<rceil> = int n"
    and "fdiv dx (real n) = xi" and "fdiv dy (real n) = yi"
  shows "step_count s A B = int n"
    and "connectible_samples s A B = sample_points xi yi n (vx A) (vy A)"
proof -
  show c: "step_count s A B = int n"
    by (simp add: step_count_def assms(1,2,3))
  show "connectible_samples s A B = sample_points xi yi n (vx A) (vy A)"
    unfolding connectible_samples_def Let_def c
    by (simp add: assms(1,2,4,5))
qed

text \<open>An example with rounding: the segment from \<open>(0, 0.5)\<close> to \<open>(7.2, 0.5)\<close> at the
  resolution \<open>2.4\<close>.  The binary64 numbers nearest to \<open>7.2\<close> and \<open>2.4\<close> are
  \<open>8106479329266893 / 2\<^sup>5\<^sup>0\<close> and \<open>5404319552844595 / 2\<^sup>5\<^sup>1\<close>; their exact quotient is a
  little above 3 and is rounded to 3, so that the segment has three steps, with the
  increment \<open>5404319552844595 / 2\<^sup>5\<^sup>1\<close>.\<close>

lemma b64_sub: "fsub (8106479329266893 / 2 ^ 50) 0 = 8106479329266893 / 2 ^ 50"
  using rnd64_dyadic [of 8106479329266893 50] by (simp add: fsub_def)

lemma b64_hypot: "hypot (8106479329266893 / 2 ^ 50) 0 = 8106479329266893 / 2 ^ 50"
  using rnd64_dyadic [of 8106479329266893 50] by (simp add: hypot_zero_right)

lemma b64_quotient: "fdiv (8106479329266893 / 2 ^ 50) (5404319552844595 / 2 ^ 51) = 3"
  unfolding fdiv_def
  by (subst rnd64_eval [where k = 51]) (simp_all add: round_ties_even_def)

lemma b64_increment: "fdiv (8106479329266893 / 2 ^ 50) 3 = 5404319552844595 / 2 ^ 51"
  unfolding fdiv_def
  by (subst rnd64_eval [where k = 51]) (simp_all add: round_ties_even_def)

lemma b64_add_first: "fadd 0 (5404319552844595 / 2 ^ 51) = 5404319552844595 / 2 ^ 51"
  using rnd64_dyadic [of 5404319552844595 51] by (simp add: fadd_def)

lemma b64_add_second: "fadd (5404319552844595 / 2 ^ 51) (5404319552844595 / 2 ^ 51) = 5404319552844595 / 2 ^ 50"
  using rnd64_dyadic [of 5404319552844595 50] by (simp add: fadd_def)

lemma b64_add_y: "fadd (1/2) 0 = 1/2"
  by (simp add: fadd_def rnd64_half)

lemma b64_example_samples:
  "step_count (planner_on cm (5404319552844595 / 2 ^ 51) 1000)
      (mk_Vertex 0 (1/2)) (mk_Vertex (8106479329266893 / 2 ^ 50) (1/2)) = 3"
  "connectible_samples (planner_on cm (5404319552844595 / 2 ^ 51) 1000)
      (mk_Vertex 0 (1/2)) (mk_Vertex (8106479329266893 / 2 ^ 50) (1/2))
   = [(0, 1/2), (5404319552844595 / 2 ^ 51, 1/2), (5404319552844595 / 2 ^ 50, 1/2)]"
proof -
  let ?s = "planner_on cm (5404319552844595 / 2 ^ 51) 1000"
  let ?A = "mk_Vertex 0 (1/2)"
  let ?B = "mk_Vertex (8106479329266893 / 2 ^ 50) (1/2)"
  have r: "interpolation_resolution ?s = 5404319552844595 / 2 ^ 51"
    by (simp add: planner_on_def)
  have v: "vx ?A = 0" "vy ?A = 1/2" "vx ?B = 8106479329266893 / 2 ^ 50" "vy ?B = 1/2"
    by (simp_all add: mk_Vertex_def)
  have dx: "fsub (vx ?B) (vx ?A) = 8106479329266893 / 2 ^ 50"
    unfolding v by (rule b64_sub)
  have dy: "fsub (vy ?B) (vy ?A) = 0"
    unfolding v by (rule fsub_self)
  have st: "\<lceil>fdiv (hypot (8106479329266893 / 2 ^ 50) 0) (interpolation_resolution ?s)\<rceil> = int 3"
    unfolding r b64_hypot b64_quotient by simp
  have xi: "fdiv (8106479329266893 / 2 ^ 50) (real 3) = 5404319552844595 / 2 ^ 51"
    using b64_increment by simp
  have yi: "fdiv 0 (real 3) = 0" by (rule fdiv_zero_left)
  note ev = connectible_samples_eval [OF dx dy st xi yi]
  show "step_count ?s ?A ?B = 3" using ev(1) by simp
  have "sample_points (5404319552844595 / 2 ^ 51) 0 3 0 (1/2)
      = [(0, 1/2), (5404319552844595 / 2 ^ 51, 1/2), (5404319552844595 / 2 ^ 50, 1/2)]"
    by (simp only: numeral_3_eq_3 sample_points.simps b64_add_first b64_add_second b64_add_y)
  with ev(2) show "connectible_samples ?s ?A ?B
   = [(0, 1/2), (5404319552844595 / 2 ^ 51, 1/2), (5404319552844595 / 2 ^ 50, 1/2)]"
    by (simp only: v)
qed


text \<open>
  Claim C5.  \<^verbatim>\<open>connectible(A, B)\<close> discretises the segment into
  \<open>steps = ceil(distance / interpolation_resolution)\<close> steps, where the distance and the
  quotient are the binary64 results of \<^verbatim>\<open>std::hypot\<close> and of the division, and visits
  \<open>steps\<close> points: the first is \<open>A\<close>, and each further one is obtained from the one before by
  adding the increment \<open>(B - A) / steps\<close> in binary64.  For an interpolation resolution
  that is not zero (the caller validates it to be positive), and as long as the number of
  steps fits the \<^verbatim>\<open>int\<close> loop counter, \<^verbatim>\<open>connectible(A, B)\<close> is true exactly when every one
  of these points maps to a valid grid cell that is free space; the loop returns false at
  the first point that does not.  A segment with no steps is connectible, and
  \<^verbatim>\<open>connectible(A, A)\<close> is true for every \<open>A\<close>, whatever the grid and the resolution are.
\<close>

theorem connectible_iff_every_sample_free:
  "(interpolation_resolution s \<noteq> 0 \<and> step_count s A B < 2 ^ 31 \<longrightarrow>
      (connectible s A B \<longleftrightarrow>
         (\<forall>k < nat (step_count s A B).
            sample_free (costmap s) (fst (connectible_samples s A B ! k))
              (snd (connectible_samples s A B ! k)))))
   \<and> step_count s A B =
       \<lceil>fdiv (hypot (fsub (vx B) (vx A)) (fsub (vy B) (vy A))) (interpolation_resolution s)\<rceil>
   \<and> length (connectible_samples s A B) = nat (step_count s A B)
   \<and> (0 < step_count s A B \<longrightarrow> connectible_samples s A B ! 0 = (vx A, vy A))
   \<and> (\<forall>k. Suc k < nat (step_count s A B) \<longrightarrow>
         connectible_samples s A B ! Suc k =
           (fadd (fst (connectible_samples s A B ! k))
              (fdiv (fsub (vx B) (vx A)) (of_int (step_count s A B))),
            fadd (snd (connectible_samples s A B ! k))
              (fdiv (fsub (vy B) (vy A)) (of_int (step_count s A B)))))
   \<and> (step_count s A B \<le> 0 \<longrightarrow> connectible s A B)
   \<and> step_count s A A = 0
   \<and> connectible s A A"
proof -
  have "connectible s A B \<longleftrightarrow>
      (\<forall>k < nat (step_count s A B).
            sample_free (costmap s) (fst (connectible_samples s A B ! k))
              (snd (connectible_samples s A B ! k)))"
    unfolding connectible_iff_samples
    by (simp add: all_set_conv_all_nth length_connectible_samples)
  moreover have "0 < step_count s A B \<longrightarrow> connectible_samples s A B ! 0 = (vx A, vy A)"
    by (simp add: connectible_samples_def Let_def sample_points_first)
  moreover have "\<forall>k. Suc k < nat (step_count s A B) \<longrightarrow>
         connectible_samples s A B ! Suc k =
           (fadd (fst (connectible_samples s A B ! k))
              (fdiv (fsub (vx B) (vx A)) (of_int (step_count s A B))),
            fadd (snd (connectible_samples s A B ! k))
              (fdiv (fsub (vy B) (vy A)) (of_int (step_count s A B))))"
    by (simp add: connectible_samples_def Let_def sample_points_next)
  moreover have "step_count s A B \<le> 0 \<longrightarrow> connectible s A B"
    by (simp add: connectible_def step_count_def)
  moreover have "step_count s A B =
       \<lceil>fdiv (hypot (fsub (vx B) (vx A)) (fsub (vy B) (vy A))) (interpolation_resolution s)\<rceil>"
    by (simp add: step_count_def)
  ultimately show ?thesis
    using length_connectible_samples [of s A B] step_count_self [of s A] connectible_self [of s A]
    by blast
qed

text \<open>At this example the three samples lie in the cells 0, 2 and 4 of a row of eight unit
  cells: the segment is connectible when only cell 1 is occupied, and not connectible
  when cell 2 is.\<close>

theorem connectible_iff_every_sample_free_witness:
  "step_count (planner_on (unit_grid 8 1 (one_obstacle 1 0)) (5404319552844595 / 2 ^ 51) 1000)
      (mk_Vertex 0 (1/2)) (mk_Vertex (8106479329266893 / 2 ^ 50) (1/2)) = 3
   \<and> connectible_samples (planner_on (unit_grid 8 1 (one_obstacle 1 0)) (5404319552844595 / 2 ^ 51) 1000)
      (mk_Vertex 0 (1/2)) (mk_Vertex (8106479329266893 / 2 ^ 50) (1/2))
     = [(0, 1/2), (5404319552844595 / 2 ^ 51, 1/2), (5404319552844595 / 2 ^ 50, 1/2)]
   \<and> connectible (planner_on (unit_grid 8 1 (one_obstacle 1 0)) (5404319552844595 / 2 ^ 51) 1000)
      (mk_Vertex 0 (1/2)) (mk_Vertex (8106479329266893 / 2 ^ 50) (1/2))
   \<and> \<not> connectible (planner_on (unit_grid 8 1 (one_obstacle 2 0)) (5404319552844595 / 2 ^ 51) 1000)
      (mk_Vertex 0 (1/2)) (mk_Vertex (8106479329266893 / 2 ^ 50) (1/2))"
proof -
  define s1 where
    "s1 = planner_on (unit_grid 8 1 (one_obstacle 1 0)) (5404319552844595 / 2 ^ 51) 1000"
  define s2 where
    "s2 = planner_on (unit_grid 8 1 (one_obstacle 2 0)) (5404319552844595 / 2 ^ 51) 1000"
  define A where "A = mk_Vertex 0 (1/2)"
  define B where "B = mk_Vertex (8106479329266893 / 2 ^ 50) (1/2)"
  define pts :: "(real \<times> real) list" where
    "pts = [(0, 1/2), (5404319552844595 / 2 ^ 51, 1/2), (5404319552844595 / 2 ^ 50, 1/2)]"
  have three: "(\<forall>k < nat 3. P k) \<longleftrightarrow> P 0 \<and> P 1 \<and> P 2" for P :: "nat \<Rightarrow> bool"
    by (auto simp: less_Suc_eq numeral_3_eq_3 numeral_2_eq_2)
  have res: "interpolation_resolution s1 \<noteq> 0" "interpolation_resolution s2 \<noteq> 0"
    by (simp_all add: s1_def s2_def planner_on_def)
  have cm: "costmap s1 = unit_grid 8 1 (one_obstacle 1 0)"
    "costmap s2 = unit_grid 8 1 (one_obstacle 2 0)"
    by (simp_all add: s1_def s2_def planner_on_def)
  have sc: "step_count s1 A B = 3" "step_count s2 A B = 3"
    unfolding s1_def s2_def A_def B_def by (rule b64_example_samples(1))+
  have sm: "connectible_samples s1 A B = pts" "connectible_samples s2 A B = pts"
    unfolding s1_def s2_def A_def B_def pts_def by (rule b64_example_samples(2))+
  have free1: "\<forall>k < nat 3. sample_free (unit_grid 8 1 (one_obstacle 1 0)) (fst (pts ! k)) (snd (pts ! k))"
    unfolding three
    by (simp add: pts_def sample_free_def unit_grid_def one_obstacle_def FREE_SPACE_def)
  have free2: "\<not> (\<forall>k < nat 3. sample_free (unit_grid 8 1 (one_obstacle 2 0)) (fst (pts ! k)) (snd (pts ! k)))"
    unfolding three
    by (simp add: pts_def sample_free_def unit_grid_def one_obstacle_def FREE_SPACE_def)
  have "step_count s1 A B < 2 ^ 31" "step_count s2 A B < 2 ^ 31"
    by (simp_all add: sc)
  with connectible_iff_every_sample_free [where s = s1 and A = A and B = B]
    connectible_iff_every_sample_free [where s = s2 and A = A and B = B] res
  have "connectible s1 A B \<longleftrightarrow>
      (\<forall>k < nat 3. sample_free (unit_grid 8 1 (one_obstacle 1 0)) (fst (pts ! k)) (snd (pts ! k)))"
    and "connectible s2 A B \<longleftrightarrow>
      (\<forall>k < nat 3. sample_free (unit_grid 8 1 (one_obstacle 2 0)) (fst (pts ! k)) (snd (pts ! k)))"
    unfolding sc sm cm by blast+
  with free1 free2 have "connectible s1 A B" "\<not> connectible s2 A B"
    by blast+
  with sc(1) sm(1) show ?thesis
    unfolding s1_def s2_def A_def B_def pts_def by simp
qed

lemma connectible_samples_resolution:
  "interpolation_resolution s' = interpolation_resolution s
     \<Longrightarrow> connectible_samples s' A B = connectible_samples s A B"
  by (simp add: connectible_samples_def step_count_def)

text \<open>The result depends on the grid only through the answers at the sample points.\<close>

lemma connectible_depends_on_samples:
  assumes "interpolation_resolution s' = interpolation_resolution s"
    and "\<forall>p \<in> set (connectible_samples s A B).
           sample_free (costmap s') (fst p) (snd p) = sample_free (costmap s) (fst p) (snd p)"
  shows "connectible s' A B = connectible s A B"
  unfolding connectible_iff_samples connectible_samples_resolution [OF assms(1)]
  using assms(2) by blast

lemma sample_free_other_cell:
  assumes "worldToMap cm x y \<noteq> Some (cell_x, cell_y)"
  shows "sample_free (cm\<lparr>getCost := \<lambda>mx my. if mx = cell_x \<and> my = cell_y then c else getCost cm mx my\<rparr>) x y
         = sample_free cm x y"
  using assms by (auto simp: sample_free_def split: option.splits)

lemma connectible_other_cell:
  assumes "\<forall>p \<in> set (connectible_samples s A B).
             worldToMap (costmap s) (fst p) (snd p) \<noteq> Some (cell_x, cell_y)"
  shows "connectible
           (s\<lparr>costmap := (costmap s)\<lparr>getCost :=
                \<lambda>mx my. if mx = cell_x \<and> my = cell_y then c else getCost (costmap s) mx my\<rparr>\<rparr>) A B
         = connectible s A B"
proof (rule connectible_depends_on_samples)
  show "interpolation_resolution
          (s\<lparr>costmap := (costmap s)\<lparr>getCost :=
                \<lambda>mx my. if mx = cell_x \<and> my = cell_y then c else getCost (costmap s) mx my\<rparr>\<rparr>)
        = interpolation_resolution s"
    by simp
  show "\<forall>p \<in> set (connectible_samples s A B).
      sample_free (costmap (s\<lparr>costmap := (costmap s)\<lparr>getCost :=
                \<lambda>mx my. if mx = cell_x \<and> my = cell_y then c else getCost (costmap s) mx my\<rparr>\<rparr>))
        (fst p) (snd p) = sample_free (costmap s) (fst p) (snd p)"
    using assms by (simp add: sample_free_other_cell)
qed

text \<open>Segments of the examples: at the resolution \<open>0.5\<close> a segment of length \<open>0.5\<close> along the
  x axis has one step, and a segment of length \<open>1\<close> that has two steps has the increment
  \<open>0.5\<close>.\<close>

lemma half_resolution_one_step:
  assumes "interpolation_resolution s = 1/2" and "vy B = vy A"
    and "fsub (vx B) (vx A) = 1/2 \<or> fsub (vx B) (vx A) = - (1/2)"
  shows "connectible_samples s A B = [(vx A, vy A)]"
proof -
  define dx where "dx = fsub (vx B) (vx A)"
  have dy: "fsub (vy B) (vy A) = 0" using assms(2) by (simp add: fsub_self)
  have dxv: "dx = 1/2 \<or> dx = - (1/2)" using assms(3) by (simp add: dx_def)
  have h1: "hypot (1/2) 0 = 1/2" by (simp add: hypot_zero_right rnd64_half)
  have h2: "hypot (- (1/2)) 0 = 1/2" by (simp add: hypot_zero_right rnd64_neg_half)
  have "hypot dx 0 = 1/2"
    using dxv by (rule disjE) (simp_all only: h1 h2)
  then have st: "\<lceil>fdiv (hypot dx 0) (interpolation_resolution s)\<rceil> = int 1"
    by (simp add: assms(1) fdiv_def rnd64_1)
  have "connectible_samples s A B = sample_points (fdiv dx (real 1)) (fdiv 0 (real 1)) 1 (vx A) (vy A)"
    by (rule connectible_samples_eval(2) [OF dx_def [symmetric] dy st refl refl])
  then show ?thesis by simp
qed

lemma unit_segment_two_steps:
  assumes "\<lceil>fdiv 1 (interpolation_resolution s)\<rceil> = 2" and "vy B = vy A"
    and "rnd64 (vy A) = vy A" and "fsub (vx B) (vx A) = 1"
  shows "connectible_samples s A B = [(vx A, vy A), (fadd (vx A) (1/2), vy A)]"
proof -
  have dy: "fsub (vy B) (vy A) = 0" using assms(2) by (simp add: fsub_self)
  have "hypot 1 0 = 1" by (simp add: hypot_zero_right rnd64_1)
  then have st: "\<lceil>fdiv (hypot 1 0) (interpolation_resolution s)\<rceil> = int 2"
    by (simp add: assms(1))
  have xi: "fdiv 1 (real 2) = 1/2" by (simp add: fdiv_def rnd64_half)
  have yi: "fdiv 0 (real 2) = 0" by (rule fdiv_zero_left)
  have "connectible_samples s A B = sample_points (1/2) 0 2 (vx A) (vy A)"
    by (rule connectible_samples_eval(2) [OF assms(4) dy st xi yi])
  also have "\<dots> = [(vx A, vy A), (fadd (vx A) (1/2), vy A)]"
    by (simp add: numeral_2_eq_2 fadd_zero_right assms(3))
  finally show ?thesis .
qed

lemma res_planner_on: "interpolation_resolution (planner_on cm res n) = res"
  by (simp add: planner_on_def)

lemma mk_Vertex_fields: "vx (mk_Vertex a b) = a" "vy (mk_Vertex a b) = b"
  by (simp_all add: mk_Vertex_def)

lemma half_quotient: "\<lceil>fdiv 1 (1/2)\<rceil> = 2"
  by (simp add: fdiv_def rnd64_numeral)

text \<open>The binary64 number nearest to \<open>0.6\<close> is \<open>5404319552844595 / 2\<^sup>5\<^sup>3\<close>; the quotient of 1
  by it is rounded to \<open>7505999378950827 / 2\<^sup>5\<^sup>2\<close>, about \<open>1.67\<close>.\<close>

lemma b64_quotient_0_6: "\<lceil>fdiv 1 (5404319552844595 / 2 ^ 53)\<rceil> = 2"
proof -
  have "fdiv 1 (5404319552844595 / 2 ^ 53) = 7505999378950827 / 2 ^ 52"
    unfolding fdiv_def
    by (subst rnd64_eval [where k = 52]) (simp_all add: round_ties_even_def)
  then show ?thesis by (simp add: ceiling_eq_iff)
qed

text \<open>Between \<open>2\<^sup>5\<^sup>2\<close> and \<open>2\<^sup>5\<^sup>3\<close> the representable numbers are the integers, and the tie
  \<open>2\<^sup>5\<^sup>2 + 1.5\<close> is rounded to the even neighbour.\<close>

lemma b64_tie: "fadd (2 ^ 52 + 1) (1/2) = 2 ^ 52 + 2"
  unfolding fadd_def
  by (subst rnd64_eval [where k = 0]) (simp_all add: round_ties_even_def)

lemma b64_unit_difference: "fsub (2 ^ 52 + 2) (2 ^ 52 + 1) = 1"
  by (simp add: fsub_def rnd64_1)

text \<open>
  Claim C9, as amended.  The loop of \<^verbatim>\<open>connectible(A, B)\<close> visits \<open>steps\<close> points, the first
  of which is \<open>A\<close>; there is no separate check of the end point \<open>B\<close>.  For a non-zero
  interpolation resolution (the caller validates it to be positive) and a number of steps
  that fits the \<^verbatim>\<open>int\<close> loop counter, the result is the conjunction of the checks at these
  points, and changing the cost of a cell into which none of them falls (the cell of \<open>B\<close>,
  say) does not change the result: the cell that contains \<open>B\<close> is checked only when one of
  the samples falls into it.  On a grid of two unit cells whose second cell is occupied,
  the segment from \<open>(0.5, 0.5)\<close> to \<open>(1, 0.5)\<close> ends in the occupied cell and is reported
  connectible, while the reversed segment is not; the segment from \<open>(1.5, 0.5)\<close> to the
  out-of-bounds point \<open>(2, 0.5)\<close> of the free grid is reported connectible as well.
\<close>

theorem connectible_checks_only_sample_cells:
  "(interpolation_resolution s \<noteq> 0 \<and> step_count s A B < 2 ^ 31 \<longrightarrow>
      connectible s A B =
        list_all (\<lambda>p. sample_free (costmap s) (fst p) (snd p)) (connectible_samples s A B))
   \<and> length (connectible_samples s A B) = nat (step_count s A B)
   \<and> (0 < step_count s A B \<longrightarrow> hd (connectible_samples s A B) = (vx A, vy A))
   \<and> (interpolation_resolution s \<noteq> 0 \<and> step_count s A B < 2 ^ 31 \<and>
       (\<forall>p \<in> set (connectible_samples s A B).
          worldToMap (costmap s) (fst p) (snd p) \<noteq> Some (cell_x, cell_y))
      \<longrightarrow> connectible
            (s\<lparr>costmap := (costmap s)\<lparr>getCost :=
                 \<lambda>mx my. if mx = cell_x \<and> my = cell_y then c else getCost (costmap s) mx my\<rparr>\<rparr>) A B
          = connectible s A B)
   \<and> (\<not> sample_free (unit_grid 2 1 (one_obstacle 1 0)) 1 (1/2)
      \<and> connectible (planner_on (unit_grid 2 1 (one_obstacle 1 0)) (1/2) 1000)
            (mk_Vertex (1/2) (1/2)) (mk_Vertex 1 (1/2))
      \<and> \<not> connectible (planner_on (unit_grid 2 1 (one_obstacle 1 0)) (1/2) 1000)
            (mk_Vertex 1 (1/2)) (mk_Vertex (1/2) (1/2)))
   \<and> (worldToMap (unit_grid 2 1 all_free) 2 (1/2) = None
      \<and> connectible (planner_on (unit_grid 2 1 all_free) (1/2) 1000)
            (mk_Vertex (3/2) (1/2)) (mk_Vertex 2 (1/2)))"
proof -
  have s1: "fsub 1 (1/2) = 1/2" by (simp add: fsub_def rnd64_half)
  have s2: "fsub (1/2) 1 = - (1/2)" by (simp add: fsub_def rnd64_neg_half)
  have s3: "fsub 2 (3/2) = 1/2" by (simp add: fsub_def rnd64_half)
  have ex1: "\<not> sample_free (unit_grid 2 1 (one_obstacle 1 0)) 1 (1/2)"
    by (simp add: sample_free_def unit_grid_def one_obstacle_def FREE_SPACE_def)
  have "connectible_samples (planner_on (unit_grid 2 1 (one_obstacle 1 0)) (1/2) 1000)
            (mk_Vertex (1/2) (1/2)) (mk_Vertex 1 (1/2)) = [(1/2, 1/2)]"
    using half_resolution_one_step [of "planner_on (unit_grid 2 1 (one_obstacle 1 0)) (1/2) 1000"
        "mk_Vertex 1 (1/2)" "mk_Vertex (1/2) (1/2)"] s1
    by (simp add: res_planner_on mk_Vertex_fields)
  then have ex2: "connectible (planner_on (unit_grid 2 1 (one_obstacle 1 0)) (1/2) 1000)
            (mk_Vertex (1/2) (1/2)) (mk_Vertex 1 (1/2))"
    unfolding connectible_iff_samples costmap_planner_on
    by (simp add: sample_free_def unit_grid_def one_obstacle_def FREE_SPACE_def)
  have "connectible_samples (planner_on (unit_grid 2 1 (one_obstacle 1 0)) (1/2) 1000)
            (mk_Vertex 1 (1/2)) (mk_Vertex (1/2) (1/2)) = [(1, 1/2)]"
    using half_resolution_one_step [of "planner_on (unit_grid 2 1 (one_obstacle 1 0)) (1/2) 1000"
        "mk_Vertex (1/2) (1/2)" "mk_Vertex 1 (1/2)"] s2
    by (simp add: res_planner_on mk_Vertex_fields)
  then have ex3: "\<not> connectible (planner_on (unit_grid 2 1 (one_obstacle 1 0)) (1/2) 1000)
            (mk_Vertex 1 (1/2)) (mk_Vertex (1/2) (1/2))"
    unfolding connectible_iff_samples costmap_planner_on
    by (simp add: sample_free_def unit_grid_def one_obstacle_def FREE_SPACE_def)
  have ex4: "worldToMap (unit_grid 2 1 all_free) 2 (1/2) = None"
    by (simp add: unit_grid_def)
  have "connectible_samples (planner_on (unit_grid 2 1 all_free) (1/2) 1000)
            (mk_Vertex (3/2) (1/2)) (mk_Vertex 2 (1/2)) = [(3/2, 1/2)]"
    using half_resolution_one_step [of "planner_on (unit_grid 2 1 all_free) (1/2) 1000"
        "mk_Vertex 2 (1/2)" "mk_Vertex (3/2) (1/2)"] s3
    by (simp add: res_planner_on mk_Vertex_fields)
  then have ex5: "connectible (planner_on (unit_grid 2 1 all_free) (1/2) 1000)
            (mk_Vertex (3/2) (1/2)) (mk_Vertex 2 (1/2))"
    unfolding connectible_iff_samples costmap_planner_on
    by (simp add: sample_free_def unit_grid_def all_free_def)
  have a: "connectible s A B =
        list_all (\<lambda>p. sample_free (costmap s) (fst p) (snd p)) (connectible_samples s A B)"
    by (simp add: connectible_iff_samples list_all_iff)
  have b: "0 < step_count s A B \<longrightarrow> hd (connectible_samples s A B) = (vx A, vy A)"
  proof
    assume "0 < step_count s A B"
    then obtain n where "nat (step_count s A B) = Suc n"
      by (cases "nat (step_count s A B)") simp_all
    then show "hd (connectible_samples s A B) = (vx A, vy A)"
      by (simp add: connectible_samples_def Let_def)
  qed
  from a b ex1 ex2 ex3 ex4 ex5 length_connectible_samples [of s A B]
    connectible_other_cell [of s A B cell_x cell_y c]
  show ?thesis by blast
qed

text \<open>On the grid of two unit cells whose second cell is occupied, the segment from
  \<open>(0.5, 0.5)\<close> to \<open>(1, 0.5)\<close> at resolution \<open>0.5\<close> has the single sample \<open>A\<close>, in the first
  cell; \<open>B\<close> lies in the second cell, and freeing that cell leaves the result as it is.\<close>

theorem connectible_checks_only_sample_cells_witness:
  "connectible_samples (planner_on (unit_grid 2 1 (one_obstacle 1 0)) (1/2) 1000)
      (mk_Vertex (1/2) (1/2)) (mk_Vertex 1 (1/2)) = [(1/2, 1/2)]
   \<and> worldToMap (unit_grid 2 1 (one_obstacle 1 0)) 1 (1/2) = Some (1, 0)
   \<and> connectible
        ((planner_on (unit_grid 2 1 (one_obstacle 1 0)) (1/2) 1000)
           \<lparr>costmap := (unit_grid 2 1 (one_obstacle 1 0))\<lparr>getCost :=
              \<lambda>mx my. if mx = 1 \<and> my = 0 then FREE_SPACE else one_obstacle 1 0 mx my\<rparr>\<rparr>)
        (mk_Vertex (1/2) (1/2)) (mk_Vertex 1 (1/2))
     = connectible (planner_on (unit_grid 2 1 (one_obstacle 1 0)) (1/2) 1000)
        (mk_Vertex (1/2) (1/2)) (mk_Vertex 1 (1/2))"
proof -
  define s where "s = planner_on (unit_grid 2 1 (one_obstacle 1 0)) (1/2) 1000"
  define A where "A = mk_Vertex (1/2) (1/2)"
  define B where "B = mk_Vertex 1 (1/2)"
  have cm: "costmap s = unit_grid 2 1 (one_obstacle 1 0)" by (simp add: s_def planner_on_def)
  have gc: "getCost (unit_grid 2 1 (one_obstacle 1 0)) = one_obstacle 1 0"
    by (simp add: unit_grid_def)
  have res: "interpolation_resolution s \<noteq> 0" by (simp add: s_def planner_on_def)
  have "fsub 1 (1/2) = 1/2" by (simp add: fsub_def rnd64_half)
  then have sm: "connectible_samples s A B = [(1/2, 1/2)]"
    using half_resolution_one_step [of s B A]
    by (simp add: s_def A_def B_def res_planner_on mk_Vertex_fields)
  have sc: "step_count s A B < 2 ^ 31"
    using length_connectible_samples [of s A B] by (simp add: sm)
  have w: "worldToMap (unit_grid 2 1 (one_obstacle 1 0)) 1 (1/2) = Some (1, 0)"
    by (simp add: unit_grid_def)
  have "\<forall>p \<in> set (connectible_samples s A B).
      worldToMap (costmap s) (fst p) (snd p) \<noteq> Some (1, 0)"
    unfolding sm cm by (simp add: unit_grid_def)
  with connectible_checks_only_sample_cells [where s = s and A = A and B = B and cell_x = 1
      and cell_y = 0 and c = FREE_SPACE] res sc
  have "connectible
        (s\<lparr>costmap := (costmap s)\<lparr>getCost :=
              \<lambda>mx my. if mx = 1 \<and> my = 0 then FREE_SPACE else getCost (costmap s) mx my\<rparr>\<rparr>) A B
     = connectible s A B"
    by blast
  then show ?thesis
    using sm w unfolding cm gc unfolding s_def A_def B_def by simp
qed

text \<open>
  Claim C9 as stated says that \<open>B\<close> itself is never sampled and that the cell containing
  \<open>B\<close> is not checked for any \<open>A \<noteq> B\<close>.  On the grid of two unit cells with interpolation
  resolution \<open>0.5\<close>, \<open>A = (0.5, 0.5)\<close> and \<open>B = (1.5, 0.5)\<close> lie in different cells, and the
  second sample \<open>(1, 0.5)\<close> lies in the cell \<open>(1, 0)\<close> of \<open>B\<close>: the segment is connectible on
  the free grid and not connectible when only the cell of \<open>B\<close> is occupied, so that cell is
  checked.  And for \<open>A = (2\<^sup>5\<^sup>2 + 1, 0)\<close>, \<open>B = (2\<^sup>5\<^sup>2 + 2, 0)\<close> at the resolution \<open>0.6\<close> the
  second sample, \<open>A + 0.5\<close> rounded to binary64, is the point \<open>B\<close>.
\<close>

theorem connectible_checks_end_cell_counterexample:
  "(vx (mk_Vertex (1/2) (1/2)), vy (mk_Vertex (1/2) (1/2)))
      \<noteq> (vx (mk_Vertex (3/2) (1/2)), vy (mk_Vertex (3/2) (1/2)))
   \<and> worldToMap (unit_grid 2 1 all_free) (3/2) (1/2) = Some (1, 0)
   \<and> worldToMap (unit_grid 2 1 (one_obstacle 1 0)) (3/2) (1/2) = Some (1, 0)
   \<and> connectible_samples (planner_on (unit_grid 2 1 all_free) (1/2) 1000)
        (mk_Vertex (1/2) (1/2)) (mk_Vertex (3/2) (1/2)) = [(1/2, 1/2), (1, 1/2)]
   \<and> worldToMap (unit_grid 2 1 all_free) 1 (1/2) = Some (1, 0)
   \<and> connectible (planner_on (unit_grid 2 1 all_free) (1/2) 1000)
        (mk_Vertex (1/2) (1/2)) (mk_Vertex (3/2) (1/2))
   \<and> \<not> connectible (planner_on (unit_grid 2 1 (one_obstacle 1 0)) (1/2) 1000)
        (mk_Vertex (1/2) (1/2)) (mk_Vertex (3/2) (1/2))
   \<and> connectible_samples (planner_on (unit_grid 2 1 all_free) (5404319552844595 / 2 ^ 53) 1000)
        (mk_Vertex (2 ^ 52 + 1) 0) (mk_Vertex (2 ^ 52 + 2) 0)
       = [(2 ^ 52 + 1, 0), (2 ^ 52 + 2, 0)]"
proof -
  have d: "fsub (3/2) (1/2) = 1" by (simp add: fsub_def rnd64_1)
  have h: "fadd (1/2) (1/2) = 1" by (simp add: fadd_def rnd64_1)
  have sm: "connectible_samples (planner_on g (1/2) 1000)
        (mk_Vertex (1/2) (1/2)) (mk_Vertex (3/2) (1/2)) = [(1/2, 1/2), (1, 1/2)]" for g
    using unit_segment_two_steps [of "planner_on g (1/2) 1000"
        "mk_Vertex (3/2) (1/2)" "mk_Vertex (1/2) (1/2)"] d h
    by (simp add: res_planner_on mk_Vertex_fields half_quotient rnd64_half)
  have big: "connectible_samples (planner_on (unit_grid 2 1 all_free) (5404319552844595 / 2 ^ 53) 1000)
        (mk_Vertex (2 ^ 52 + 1) 0) (mk_Vertex (2 ^ 52 + 2) 0)
       = [(2 ^ 52 + 1, 0), (2 ^ 52 + 2, 0)]"
    using unit_segment_two_steps [of "planner_on (unit_grid 2 1 all_free) (5404319552844595 / 2 ^ 53) 1000"
        "mk_Vertex (2 ^ 52 + 2) 0" "mk_Vertex (2 ^ 52 + 1) 0"]
    by (simp only: res_planner_on mk_Vertex_fields b64_quotient_0_6 rnd64_0 b64_unit_difference
        b64_tie simp_thms)
  have c1: "connectible (planner_on (unit_grid 2 1 all_free) (1/2) 1000)
        (mk_Vertex (1/2) (1/2)) (mk_Vertex (3/2) (1/2))"
    unfolding connectible_iff_samples sm costmap_planner_on
    by (simp add: sample_free_def unit_grid_def all_free_def)
  have c2: "\<not> connectible (planner_on (unit_grid 2 1 (one_obstacle 1 0)) (1/2) 1000)
        (mk_Vertex (1/2) (1/2)) (mk_Vertex (3/2) (1/2))"
    unfolding connectible_iff_samples sm costmap_planner_on
    by (simp add: sample_free_def unit_grid_def one_obstacle_def FREE_SPACE_def)
  have w: "worldToMap (unit_grid 2 1 all_free) (3/2) (1/2) = Some (1, 0)"
    "worldToMap (unit_grid 2 1 (one_obstacle 1 0)) (3/2) (1/2) = Some (1, 0)"
    "worldToMap (unit_grid 2 1 all_free) 1 (1/2) = Some (1, 0)"
    by (simp_all add: unit_grid_def)
  have ne: "(vx (mk_Vertex (1/2) (1/2)), vy (mk_Vertex (1/2) (1/2)))
      \<noteq> (vx (mk_Vertex (3/2) (1/2)), vy (mk_Vertex (3/2) (1/2)))"
    by (simp add: mk_Vertex_def)
  from ne w sm [of "unit_grid 2 1 all_free"] c1 c2 big show ?thesis by blast
qed


section \<open>Properties of the connection radius\<close>

lemma count_free_y_eq:
  "count_free_y cm x y n =
     n + of_nat (\<Sum>j = y ..< getSizeInCellsY cm. if getCost cm x j = FREE_SPACE then 1 else 0)"
proof (induction cm x y n rule: count_free_y.induct)
  case (1 cm x y n)
  show ?case
  proof (cases "y < getSizeInCellsY cm")
    case False
    then show ?thesis by (subst count_free_y.simps) simp
  next
    case True
    have "count_free_y cm x y n =
        count_free_y cm x (y + 1) (if getCost cm x y = FREE_SPACE then n + 1 else n)"
      using True by (subst count_free_y.simps) simp
    also have "\<dots> = (if getCost cm x y = FREE_SPACE then n + 1 else n) +
        of_nat (\<Sum>j = y + 1 ..< getSizeInCellsY cm. if getCost cm x j = FREE_SPACE then 1 else 0)"
      using "1.IH" [OF True] .
    also have "\<dots> = n +
        of_nat (\<Sum>j = y ..< getSizeInCellsY cm. if getCost cm x j = FREE_SPACE then 1 else 0)"
      using True by (simp add: sum.atLeast_Suc_lessThan)
    finally show ?thesis .
  qed
qed

lemma count_free_x_eq:
  "count_free_x cm x n =
     n + of_nat (\<Sum>i = x ..< getSizeInCellsX cm. \<Sum>j < getSizeInCellsY cm.
                   if getCost cm i j = FREE_SPACE then 1 else 0)"
proof (induction cm x n rule: count_free_x.induct)
  case (1 cm x n)
  show ?case
  proof (cases "x < getSizeInCellsX cm")
    case False
    then show ?thesis by (subst count_free_x.simps) simp
  next
    case True
    have "count_free_x cm x n = count_free_x cm (x + 1) (count_free_y cm x 0 n)"
      using True by (subst count_free_x.simps) simp
    also have "\<dots> = count_free_y cm x 0 n +
        of_nat (\<Sum>i = x + 1 ..< getSizeInCellsX cm. \<Sum>j < getSizeInCellsY cm.
                   if getCost cm i j = FREE_SPACE then 1 else 0)"
      using "1.IH" [OF True] .
    also have "\<dots> = n +
        of_nat (\<Sum>i = x ..< getSizeInCellsX cm. \<Sum>j < getSizeInCellsY cm.
                   if getCost cm i j = FREE_SPACE then 1 else 0)"
      using True by (simp add: count_free_y_eq sum.atLeast_Suc_lessThan atLeast0LessThan)
    finally show ?thesis .
  qed
qed

lemma count_free_x_total: "count_free_x cm 0 0 = of_nat (free_cell_count cm)"
  by (simp add: count_free_x_eq free_cell_count_def atLeast0LessThan)

lemma free_volume_nonneg: "0 \<le> r * r * real (unat w) / pi"
proof -
  have "0 \<le> r * r" by simp
  moreover have "0 \<le> real (unat w)" by (rule of_nat_0_le_iff)
  ultimately have "0 \<le> r * r * real (unat w)" by (rule mult_nonneg_nonneg)
  then show ?thesis by (rule divide_nonneg_nonneg) simp
qed

lemma ball_radius_constant_eq:
  "ball_radius_constant (calculateBallRadiusConstant s) =
     min 10 (3 * sqrt (getResolution (costmap s) * getResolution (costmap s)
                        * real (unat (word_of_nat (free_cell_count (costmap s)) :: 32 word)) / pi))"
proof -
  have "0 \<le> getResolution (costmap s) * getResolution (costmap s)
                        * real (unat (word_of_nat (free_cell_count (costmap s)) :: 32 word)) / pi"
    by (rule free_volume_nonneg)
  then show ?thesis
    by (simp add: calculateBallRadiusConstant_def Let_def count_free_x_total powr_half_sqrt)
qed

lemma ball_radius_constant_bounds:
  "0 \<le> ball_radius_constant (calculateBallRadiusConstant s)
   \<and> ball_radius_constant (calculateBallRadiusConstant s) \<le> 10"
proof -
  have "0 \<le> getResolution (costmap s) * getResolution (costmap s)
                        * real (unat (word_of_nat (free_cell_count (costmap s)) :: 32 word)) / pi"
    by (rule free_volume_nonneg)
  then show ?thesis
    unfolding ball_radius_constant_eq by simp
qed

text \<open>The radius for two dimensions, by cases: at tree size 0 the logarithm is \<open>-\<infinity>\<close>, the
  root of the infinite product is \<open>+\<infinity>\<close> and the minimum is the cap (a zero constant
  gives NaN); at a tree size \<open>n \<ge> 1\<close> the radius is the root of a real number, NaN when that
  number is negative.\<close>

lemma calculateBallRadius_two:
  "calculateBallRadius s (int n) 2 m =
     (if n = 0 then (if ball_radius_constant s = 0 then NaN else Num m)
      else if ball_radius_constant s * ln (real n) < 0 then NaN
      else Num (min (sqrt (ball_radius_constant s * ln (real n) / real n)) m))"
proof (cases "n = 0")
  case True
  then show ?thesis
    by (simp add: calculateBallRadius_def log_int_def pow_root_def Let_def)
next
  case False
  then have n: "0 < real n" by simp
  have neg: "ball_radius_constant s * ln (real n) / real n < 0 \<longleftrightarrow>
      ball_radius_constant s * ln (real n) < 0"
    using n by (simp add: divide_less_0_iff)
  have root: "(ball_radius_constant s * ln (real n) / real n) powr (1 / 2)
      = sqrt (ball_radius_constant s * ln (real n) / real n)"
    if "\<not> ball_radius_constant s * ln (real n) < 0"
  proof -
    from that neg have "0 \<le> ball_radius_constant s * ln (real n) / real n" by simp
    then show ?thesis by (simp add: powr_half_sqrt)
  qed
  have "calculateBallRadius s (int n) 2 m =
      fp_min (pow_root (Num (ball_radius_constant s * ln (real n) / real n)) 2) m"
    using False by (simp add: calculateBallRadius_def log_int_def Let_def)
  also have "\<dots> = (if ball_radius_constant s * ln (real n) < 0 then NaN
      else Num (min (sqrt (ball_radius_constant s * ln (real n) / real n)) m))"
    using root by (simp add: pow_root_def neg min_def not_less)
  finally show ?thesis using False by simp
qed

lemma calculateBallRadius_cases:
  "calculateBallRadius s (int n) 2 m = NaN \<or>
   (\<exists>r. calculateBallRadius s (int n) 2 m = Num r \<and> r \<le> m \<and> (0 \<le> m \<longrightarrow> 0 \<le> r))"
  unfolding calculateBallRadius_two by simp

text \<open>In a planning call the constant is not negative and the tree is not empty: the radius
  is a number.\<close>

lemma calculateBallRadius_planner:
  assumes "0 \<le> ball_radius_constant s" and "1 \<le> n"
  shows "calculateBallRadius s (int n) 2 m =
           Num (min (sqrt (ball_radius_constant s * ln (real n) / real n)) m)"
proof -
  from assms(2) have "0 \<le> ln (real n)" by simp
  with assms(1) have "\<not> ball_radius_constant s * ln (real n) < 0"
    by (simp add: not_less)
  with assms(2) show ?thesis
    unfolding calculateBallRadius_two by simp
qed

lemma ln_3_ge_1: "1 \<le> ln (3 :: real)"
proof -
  have "exp (1 :: real) \<le> 3" by (rule exp_le)
  then show ?thesis by (simp add: ln_ge_iff)
qed

lemma ln_3_le_2: "ln (3 :: real) \<le> 2"
proof -
  have "ln (3 :: real) \<le> 3 - 1" by (rule ln_le_minus_one) simp
  then show ?thesis by simp
qed

text \<open>
  Claim C4.  For two dimensions and every tree size \<open>n\<close>, \<^verbatim>\<open>calculateBallRadius\<close> returns
  \<open>min((ball_radius_constant \<cdot> ln n / n)\<^sup>1\<^sup>/\<^sup>2, max_connection_distance)\<close> as binary64
  evaluates it: for \<open>n \<ge> 1\<close> and a product \<open>ball_radius_constant \<cdot> ln n\<close> that is not negative
  this is the real number \<open>min(sqrt(ball_radius_constant \<cdot> ln n / n), max_connection_distance)\<close>;
  for a negative product the root, and with it the result, is NaN; for \<open>n = 0\<close> the
  logarithm is \<open>-\<infinity>\<close>, the root is \<open>+\<infinity>\<close> and the result is the cap (NaN for a zero
  constant).  The result is never above the cap.  \<^verbatim>\<open>createPlan\<close> passes the cap 2.0, a tree
  size of at least one, and the constant that \<^verbatim>\<open>calculateBallRadiusConstant\<close> stored, which is
  not negative: there the radius is the real number of the formula.
\<close>

theorem connection_radius_formula:
  "calculateBallRadius s (int n) 2 2 =
     (if n = 0 then (if ball_radius_constant s = 0 then NaN else Num 2)
      else if ball_radius_constant s * ln (real n) < 0 then NaN
      else Num (min (sqrt (ball_radius_constant s * ln (real n) / real n)) 2))
   \<and> (calculateBallRadius s (int n) 2 m = NaN \<or>
       (\<exists>r. calculateBallRadius s (int n) 2 m = Num r \<and> r \<le> m))
   \<and> (1 \<le> n \<longrightarrow>
        calculateBallRadius (calculateBallRadiusConstant s) (int n) 2 2 =
          Num (min (sqrt (ball_radius_constant (calculateBallRadiusConstant s) * ln (real n) / real n)) 2))"
proof -
  have "0 \<le> ball_radius_constant (calculateBallRadiusConstant s)"
    using ball_radius_constant_bounds by blast
  then have "1 \<le> n \<longrightarrow>
        calculateBallRadius (calculateBallRadiusConstant s) (int n) 2 2 =
          Num (min (sqrt (ball_radius_constant (calculateBallRadiusConstant s) * ln (real n) / real n)) 2)"
    using calculateBallRadius_planner by blast
  moreover have "calculateBallRadius s (int n) 2 m = NaN \<or>
       (\<exists>r. calculateBallRadius s (int n) 2 m = Num r \<and> r \<le> m)"
    using calculateBallRadius_cases [of s n m] by blast
  ultimately show ?thesis
    using calculateBallRadius_two [of s n 2] by blast
qed

text \<open>With the constant 3 a tree of three vertices has the radius \<open>sqrt(ln 3)\<close>, about
  \<open>1.05\<close> and below the cap; with the constant 100 the root is above 2 and the radius is
  the cap; on the empty tree the radius is the cap as well.  After
  \<^verbatim>\<open>calculateBallRadiusConstant\<close> on two free unit cells the constant is \<open>3 sqrt(2/\<pi>)\<close> and a
  tree of three vertices has the radius \<open>sqrt(sqrt(2/\<pi>) ln 3)\<close>.\<close>

theorem connection_radius_formula_witness:
  "calculateBallRadius ((planner_on (unit_grid 2 1 all_free) 1 1000)\<lparr>ball_radius_constant := 3\<rparr>) (int 3) 2 2
     = Num (sqrt (ln 3))
   \<and> 1 \<le> sqrt (ln (3 :: real)) \<and> sqrt (ln (3 :: real)) < 2
   \<and> calculateBallRadius ((planner_on (unit_grid 2 1 all_free) 1 1000)\<lparr>ball_radius_constant := 100\<rparr>) (int 3) 2 2
     = Num 2
   \<and> calculateBallRadius ((planner_on (unit_grid 2 1 all_free) 1 1000)\<lparr>ball_radius_constant := 100\<rparr>) (int 0) 2 2
     = Num 2
   \<and> calculateBallRadius (calculateBallRadiusConstant (planner_on (unit_grid 2 1 all_free) 1 1000)) (int 3) 2 2
     = Num (min (sqrt (ball_radius_constant
          (calculateBallRadiusConstant (planner_on (unit_grid 2 1 all_free) 1 1000)) * ln 3 / 3)) 2)"
proof -
  define p where "p = planner_on (unit_grid 2 1 all_free) 1 1000"
  have l1: "1 \<le> sqrt (ln (3 :: real))"
    using ln_3_ge_1 by simp
  have "sqrt (ln (3 :: real)) \<le> sqrt 2"
    using ln_3_le_2 by simp
  also have "sqrt 2 < (2 :: real)"
    by (simp add: real_less_lsqrt)
  finally have l2: "sqrt (ln (3 :: real)) < 2" .
  have a: "calculateBallRadius (p\<lparr>ball_radius_constant := 3\<rparr>) (int 3) 2 2 = Num (sqrt (ln 3))"
    using connection_radius_formula [of "p\<lparr>ball_radius_constant := 3\<rparr>" 3] l2 ln_3_ge_1
    by (simp add: min_def)
  have "4 \<le> 100 * ln (3 :: real) / 3"
    using ln_3_ge_1 by simp
  then have "sqrt 4 \<le> sqrt (100 * ln (3 :: real) / 3)"
    by (simp only: real_sqrt_le_iff)
  then have big: "2 \<le> sqrt (100 * ln (3 :: real) / 3)" by simp
  have b: "calculateBallRadius (p\<lparr>ball_radius_constant := 100\<rparr>) (int 3) 2 2 = Num 2"
    using connection_radius_formula [of "p\<lparr>ball_radius_constant := 100\<rparr>" 3] big ln_3_ge_1
    by (simp add: min_def)
  have c: "calculateBallRadius (p\<lparr>ball_radius_constant := 100\<rparr>) (int 0) 2 2 = Num 2"
    using connection_radius_formula [of "p\<lparr>ball_radius_constant := 100\<rparr>" 0]
    by simp
  have d: "calculateBallRadius (calculateBallRadiusConstant p) (int 3) 2 2
     = Num (min (sqrt (ball_radius_constant (calculateBallRadiusConstant p) * ln 3 / 3)) 2)"
    using connection_radius_formula [of p 3] by simp
  from a b c d l1 l2 show ?thesis unfolding p_def by blast
qed


section \<open>Properties of the neighbourhood queries\<close>

lemma findVertices_loop_eq:
  "findVertices_loop t cx cy r2 i acc =
     acc @ filter (\<lambda>j. le_fp ((vx (t ! j) - cx)\<^sup>2 + (vy (t ! j) - cy)\<^sup>2) r2) [i ..< length t]"
proof (induction t cx cy r2 i acc rule: findVertices_loop.induct)
  case (1 t cx cy r2 i acc)
  show ?case
  proof (cases "i < length t")
    case False
    then show ?thesis by (subst findVertices_loop.simps) simp
  next
    case True
    then have upt: "[i ..< length t] = i # [i + 1 ..< length t]"
      by (simp add: upt_conv_Cons)
    show ?thesis
      using True "1.IH" [OF True refl]
      by (subst findVertices_loop.simps) (simp add: upt Let_def)
  qed
qed

lemma findVerticesInsideCircle_eq:
  "findVerticesInsideCircle s cx cy r =
     filter (\<lambda>j. le_fp ((vx (tree s ! j) - cx)\<^sup>2 + (vy (tree s ! j) - cy)\<^sup>2) (fp_square r))
       [0 ..< length (tree s)]"
  by (simp add: findVerticesInsideCircle_def findVertices_loop_eq)

lemma findVerticesInsideCircle_bound:
  "index \<in> set (findVerticesInsideCircle s cx cy r) \<Longrightarrow> index < length (tree s)"
  by (simp add: findVerticesInsideCircle_eq)

lemma nearest_loop_bound:
  "nearest_loop t px py i cur m = Some n \<Longrightarrow> (\<forall>c. cur = Some c \<longrightarrow> c < length t)
     \<Longrightarrow> n < length t"
proof (induction t px py i cur m rule: nearest_loop.induct)
  case (1 t px py i cur m)
  show ?case
  proof (cases "i < length t")
    case False
    with "1.prems" show ?thesis
      by (subst (asm) nearest_loop.simps) simp
  next
    case True
    show ?thesis
    proof (cases "less_bound (calculate_distance px py (t ! i)) m")
      case lt: True
      with True "1.prems"(1)
      have "nearest_loop t px py (i + 1) (Some i) (Finite (calculate_distance px py (t ! i))) = Some n"
        by (subst (asm) nearest_loop.simps) (simp add: Let_def)
      then show ?thesis
        using "1.IH"(1) [OF True refl lt] True by simp
    next
      case ge: False
      with True "1.prems"(1)
      have "nearest_loop t px py (i + 1) cur m = Some n"
        by (subst (asm) nearest_loop.simps) (simp add: Let_def)
      then show ?thesis
        using "1.IH"(2) [OF True refl ge] "1.prems"(2) by simp
    qed
  qed
qed

lemma nearest_loop_Some:
  "cur \<noteq> None \<or> (i < length t \<and> m = Infinity) \<Longrightarrow> nearest_loop t px py i cur m \<noteq> None"
proof (induction t px py i cur m rule: nearest_loop.induct)
  case (1 t px py i cur m)
  show ?case
  proof (cases "i < length t")
    case False
    with "1.prems" show ?thesis
      by (subst nearest_loop.simps) simp
  next
    case True
    show ?thesis
    proof (cases "less_bound (calculate_distance px py (t ! i)) m")
      case lt: True
      have "nearest_loop t px py (i + 1) (Some i) (Finite (calculate_distance px py (t ! i))) \<noteq> None"
        using "1.IH"(1) [OF True refl lt] by simp
      with True lt show ?thesis
        by (subst nearest_loop.simps) (simp add: Let_def)
    next
      case ge: False
      then have "m \<noteq> Infinity" by (cases m) simp_all
      with "1.prems" have "cur \<noteq> None" by simp
      then have "nearest_loop t px py (i + 1) cur m \<noteq> None"
        using "1.IH"(2) [OF True refl ge] by simp
      with True ge show ?thesis
        by (subst nearest_loop.simps) (simp add: Let_def)
    qed
  qed
qed

lemma nearest_neighbor_bound: "nearest_neighbor s px py = Some n \<Longrightarrow> n < length (tree s)"
  unfolding nearest_neighbor_def by (erule nearest_loop_bound) simp

lemma nearest_neighbor_Some: "tree s \<noteq> [] \<Longrightarrow> \<exists>n. nearest_neighbor s px py = Some n"
  unfolding nearest_neighbor_def using nearest_loop_Some [of None 0 "tree s" Infinity px py]
  by auto

lemma calculate_distance_nonneg: "0 \<le> calculate_distance px py v"
  by (simp add: calculate_distance_def)

text \<open>The nearest vertex: the scan returns the first vertex at the least distance.\<close>

lemma nearest_loop_min:
  assumes "nearest_loop t px py i cur m = Some n" and "i \<le> length t"
    and "case cur of
           None \<Rightarrow> m = Infinity \<and> i = 0
         | Some c \<Rightarrow> c < i \<and> m = Finite (calculate_distance px py (t ! c)) \<and>
             (\<forall>j < i. calculate_distance px py (t ! c) \<le> calculate_distance px py (t ! j)) \<and>
             (\<forall>j < c. calculate_distance px py (t ! c) < calculate_distance px py (t ! j))"
  shows "n < length t \<and>
     (\<forall>j < length t. calculate_distance px py (t ! n) \<le> calculate_distance px py (t ! j)) \<and>
     (\<forall>j < n. calculate_distance px py (t ! n) < calculate_distance px py (t ! j))"
  using assms
proof (induction t px py i cur m rule: nearest_loop.induct)
  case (1 t px py i cur m)
  let ?d = "\<lambda>j. calculate_distance px py (t ! j)"
  show ?case
  proof (cases "i < length t")
    case False
    with "1.prems"(2) have i: "i = length t" by simp
    from False "1.prems"(1) have "cur = Some n"
      by (subst (asm) nearest_loop.simps) simp
    with "1.prems"(3) i show ?thesis by simp
  next
    case True
    show ?thesis
    proof (cases "less_bound (?d i) m")
      case lt: True
      with True "1.prems"(1)
      have run: "nearest_loop t px py (i + 1) (Some i) (Finite (?d i)) = Some n"
        by (subst (asm) nearest_loop.simps) (simp add: Let_def)
      have below: "?d i < ?d j" if "j < i" for j
      proof (cases cur)
        case None
        with "1.prems"(3) that show ?thesis by simp
      next
        case (Some c)
        with "1.prems"(3) that lt have "?d i < ?d c" "?d c \<le> ?d j" by simp_all
        then show ?thesis by simp
      qed
      have "\<forall>j < i + 1. ?d i \<le> ?d j"
      proof (intro allI impI)
        fix j assume "j < i + 1"
        then consider "j < i" | "j = i" by linarith
        then show "?d i \<le> ?d j" using below by cases (simp_all add: less_imp_le)
      qed
      with below have "case Some i of
           None \<Rightarrow> Finite (?d i) = Infinity \<and> i + 1 = 0
         | Some c \<Rightarrow> c < i + 1 \<and> Finite (?d i) = Finite (?d c) \<and>
             (\<forall>j < i + 1. ?d c \<le> ?d j) \<and> (\<forall>j < c. ?d c < ?d j)"
        by simp
      from "1.IH"(1) [OF True refl lt run _ this] True show ?thesis by simp
    next
      case ge: False
      with True "1.prems"(1)
      have run: "nearest_loop t px py (i + 1) cur m = Some n"
        by (subst (asm) nearest_loop.simps) (simp add: Let_def)
      from ge have "m \<noteq> Infinity" by (cases m) simp_all
      with "1.prems"(3) obtain c where c: "cur = Some c" by (cases cur) simp_all
      with "1.prems"(3) have inv: "c < i" "m = Finite (?d c)" "\<forall>j < i. ?d c \<le> ?d j"
        "\<forall>j < c. ?d c < ?d j"
        by simp_all
      from ge inv(2) have "?d c \<le> ?d i" by simp
      with inv(3) have "\<forall>j < i + 1. ?d c \<le> ?d j"
        by (auto simp: less_Suc_eq)
      with inv c have "case cur of
           None \<Rightarrow> m = Infinity \<and> i + 1 = 0
         | Some c \<Rightarrow> c < i + 1 \<and> m = Finite (?d c) \<and>
             (\<forall>j < i + 1. ?d c \<le> ?d j) \<and> (\<forall>j < c. ?d c < ?d j)"
        by simp
      from "1.IH"(2) [OF True refl ge run _ this] True show ?thesis by simp
    qed
  qed
qed

lemma nearest_neighbor_min:
  assumes "nearest_neighbor s px py = Some n"
  shows "n < length (tree s) \<and>
     (\<forall>j < length (tree s).
        calculate_distance px py (tree s ! n) \<le> calculate_distance px py (tree s ! j)) \<and>
     (\<forall>j < n. calculate_distance px py (tree s ! n) < calculate_distance px py (tree s ! j))"
  using assms unfolding nearest_neighbor_def
  by (rule nearest_loop_min) simp_all

section \<open>Properties of the cost walk\<close>

lemma cost_walk_None: "cost_walk t None acc = Some acc"
  by (subst cost_walk.simps) simp

lemma cost_walk_Some:
  "i < length t \<Longrightarrow> cost_walk t (Some i) acc = cost_walk t (parent (t ! i)) (acc + cost (t ! i))"
  by (subst cost_walk.simps) simp

text \<open>On a tree whose parent links point to earlier vertices the walk from vertex \<open>i\<close>
  returns, it adds a fixed sum to the accumulator, and it reads only the vertices up to
  \<open>i\<close>.\<close>

lemma cost_walk_chain:
  assumes "parents_below t" and "i < length t"
  shows "\<exists>c. \<forall>t' acc. i < length t' \<and> (\<forall>j \<le> i. t' ! j = t ! j)
           \<longrightarrow> cost_walk t' (Some i) acc = Some (acc + c)"
  using assms(2)
proof (induction i rule: less_induct)
  case (less i)
  show ?case
  proof (cases "parent (t ! i)")
    case None
    have "\<forall>t' acc. i < length t' \<and> (\<forall>j \<le> i. t' ! j = t ! j)
           \<longrightarrow> cost_walk t' (Some i) acc = Some (acc + cost (t ! i))"
    proof (intro allI impI)
      fix t' :: "Vertex list" and acc
      assume a: "i < length t' \<and> (\<forall>j \<le> i. t' ! j = t ! j)"
      then have "t' ! i = t ! i" by simp
      with a None show "cost_walk t' (Some i) acc = Some (acc + cost (t ! i))"
        by (simp add: cost_walk_Some cost_walk_None)
    qed
    then show ?thesis by blast
  next
    case (Some p)
    with assms(1) less.prems have p: "p < i"
      by (simp add: parents_below_def)
    with less.prems have "p < length t" by simp
    from less.IH [OF p this] obtain c where
      c: "\<And>t' acc. p < length t' \<Longrightarrow> (\<forall>j \<le> p. t' ! j = t ! j)
           \<Longrightarrow> cost_walk t' (Some p) acc = Some (acc + c)"
      by blast
    have "\<forall>t' acc. i < length t' \<and> (\<forall>j \<le> i. t' ! j = t ! j)
           \<longrightarrow> cost_walk t' (Some i) acc = Some (acc + (cost (t ! i) + c))"
    proof (intro allI impI)
      fix t' :: "Vertex list" and acc
      assume a: "i < length t' \<and> (\<forall>j \<le> i. t' ! j = t ! j)"
      then have ti: "t' ! i = t ! i" by simp
      from a p have "p < length t'" "\<forall>j \<le> p. t' ! j = t ! j" by simp_all
      then have "cost_walk t' (Some p) (acc + cost (t ! i)) = Some (acc + cost (t ! i) + c)"
        by (rule c)
      with a ti Some show "cost_walk t' (Some i) acc = Some (acc + (cost (t ! i) + c))"
        by (simp add: cost_walk_Some add.assoc)
    qed
    then show ?thesis by blast
  qed
qed

lemma parents_below_append:
  assumes "parents_below t" and "\<forall>p. parent v = Some p \<longrightarrow> p < length t"
  shows "parents_below (t @ [v])"
  unfolding parents_below_def
proof (intro allI impI)
  fix i p
  assume i: "i < length (t @ [v])" and p: "parent ((t @ [v]) ! i) = Some p"
  show "p < i"
  proof (cases "i < length t")
    case True
    with p assms(1) show ?thesis by (simp add: parents_below_def nth_append)
  next
    case False
    with i have "i = length t" by simp
    with p assms(2) show ?thesis by simp
  qed
qed

lemma tree_ok_parents_below: "tree_ok sx sy t \<Longrightarrow> parents_below t"
  unfolding tree_ok_def parents_below_def
proof (intro allI impI)
  fix i p
  assume ok: "t \<noteq> [] \<and> t ! 0 = \<lparr>vx = sx, vy = sy, cost = 0, parent = None\<rparr> \<and>
     (\<forall>i < length t. 0 < i \<longrightarrow> 0 \<le> cost (t ! i) \<and> (\<exists>p < i. parent (t ! i) = Some p))"
    and i: "i < length t" and p: "parent (t ! i) = Some p"
  show "p < i"
  proof (cases "i = 0")
    case True
    with ok p show ?thesis by simp
  next
    case False
    with ok i obtain q where "q < i" "parent (t ! i) = Some q" by auto
    with p show ?thesis by simp
  qed
qed

section \<open>Properties of one insertion\<close>

lemma connectible_tree_update [simp]: "connectible (s\<lparr>tree := t\<rparr>) a b = connectible s a b"
  by (simp add: connectible_def)

lemma connectible_position:
  "vx a' = vx a \<Longrightarrow> vy a' = vy a \<Longrightarrow> connectible s a' b = connectible s a b"
  by (simp add: connectible_def)

lemma calculate_cost_from_start_index:
  "index < length (tree s) \<Longrightarrow>
     calculate_cost_from_start s (tree s ! index) = cost_walk (tree s) (Some index) 0"
  by (simp add: calculate_cost_from_start_def cost_walk_Some)

text \<open>The cost of an old vertex does not depend on the vertex appended last, and a vertex
  whose parent is the old vertex costs its own edge more.\<close>

lemma cost_from_start_old:
  assumes "parents_below t0" and "index < length t0"
  shows "\<exists>c. \<forall>s ext. tree s = t0 @ ext \<longrightarrow>
           calculate_cost_from_start s (t0 ! index) = Some c \<and>
           (\<forall>w :: Vertex. parent w = Some index \<longrightarrow>
              calculate_cost_from_start s w = Some (c + cost w))"
proof -
  from cost_walk_chain [OF assms] obtain c where
    c: "\<And>t' acc. index < length t' \<Longrightarrow> (\<forall>j \<le> index. t' ! j = t0 ! j)
           \<Longrightarrow> cost_walk t' (Some index) acc = Some (acc + c)"
    by blast
  have "\<forall>s ext. tree s = t0 @ ext \<longrightarrow>
           calculate_cost_from_start s (t0 ! index) = Some c \<and>
           (\<forall>w :: Vertex. parent w = Some index \<longrightarrow>
              calculate_cost_from_start s w = Some (c + cost w))"
  proof (intro allI impI conjI)
    fix s :: RRTStar and ext and w :: Vertex
    assume t: "tree s = t0 @ ext"
    have len: "index < length (tree s)" using t assms(2) by simp
    have agree: "\<forall>j \<le> index. tree s ! j = t0 ! j"
      using t assms(2) by (simp add: nth_append)
    have "t0 ! index = tree s ! index" using agree by simp
    then have "calculate_cost_from_start s (t0 ! index) = cost_walk (tree s) (Some index) 0"
      using calculate_cost_from_start_index [OF len] by simp
    also have "\<dots> = Some (0 + c)" using len agree by (rule c)
    finally show "calculate_cost_from_start s (t0 ! index) = Some c" by simp
    assume w: "parent w = Some index"
    have "calculate_cost_from_start s w = cost_walk (tree s) (Some index) (0 + cost w)"
      by (simp add: calculate_cost_from_start_def w)
    also have "\<dots> = Some (0 + cost w + c)" using len agree by (rule c)
    finally show "calculate_cost_from_start s w = Some (c + cost w)" by (simp add: add.commute)
  qed
  then show ?thesis ..
qed

text \<open>The rewiring loop rewrites nothing but the parent and the edge cost of the last
  vertex (no hypothesis on the tree is needed for this).\<close>

lemma rewire_loop_shape:
  assumes "rewire_loop s near tot = Some s'"
    and "tree s = t0 @ [v]"
    and "\<forall>index \<in> set near. index < length t0"
  shows "\<exists>v'. s' = s\<lparr>tree := t0 @ [v']\<rparr> \<and> vx v' = vx v \<and> vy v' = vy v \<and>
           ((parent v' = parent v \<and> cost v' = cost v) \<or>
            (\<exists>index \<in> set near. parent v' = Some index \<and>
               cost v' = calculate_distance (vx v) (vy v) (t0 ! index) \<and>
               connectible s v (t0 ! index)))"
  using assms
proof (induction near arbitrary: s v tot)
  case Nil
  then have "s' = s\<lparr>tree := t0 @ [v]\<rparr>" by simp
  then show ?case by blast
next
  case (Cons index rest)
  from Cons.prems(3) have idx: "index < length t0" and rest: "\<forall>i \<in> set rest. i < length t0"
    by simp_all
  have nth: "tree s ! index = t0 ! index"
    using Cons.prems(2) idx by (simp add: nth_append)
  have lst: "last (tree s) = v" using Cons.prems(2) by simp
  from Cons.prems(1) obtain c where c: "calculate_cost_from_start s (tree s ! index) = Some c"
    by (cases "calculate_cost_from_start s (tree s ! index)") simp_all
  define potential where "potential = c + calculate_distance (vx v) (vy v) (t0 ! index)"
  define v1 where "v1 = v\<lparr>parent := Some index,
                          cost := calculate_distance (vx v) (vy v) (t0 ! index)\<rparr>"
  have upd: "(tree s)[length (tree s) - 1 := v1] = t0 @ [v1]"
    using Cons.prems(2) by simp
  show ?case
  proof (cases "potential < tot \<and> connectible s v (t0 ! index)")
    case True
    then have "rewire_loop (s\<lparr>tree := t0 @ [v1]\<rparr>) rest potential = Some s'"
      using Cons.prems(1) c nth lst upd
      by (simp add: Let_def potential_def v1_def)
    from Cons.IH [OF this _ rest, of v1] obtain v' where
      v': "s' = s\<lparr>tree := t0 @ [v1]\<rparr>\<lparr>tree := t0 @ [v']\<rparr>" "vx v' = vx v1" "vy v' = vy v1"
        "(parent v' = parent v1 \<and> cost v' = cost v1) \<or>
            (\<exists>index \<in> set rest. parent v' = Some index \<and>
               cost v' = calculate_distance (vx v1) (vy v1) (t0 ! index) \<and>
               connectible (s\<lparr>tree := t0 @ [v1]\<rparr>) v1 (t0 ! index))"
      by auto
    have pos: "vx v1 = vx v" "vy v1 = vy v" by (simp_all add: v1_def)
    have conn: "connectible s v1 b = connectible s v b" for b
      using connectible_position [OF pos] by simp
    from v'(4) have "(\<exists>index \<in> set (index # rest). parent v' = Some index \<and>
               cost v' = calculate_distance (vx v) (vy v) (t0 ! index) \<and>
               connectible s v (t0 ! index))"
    proof
      assume "parent v' = parent v1 \<and> cost v' = cost v1"
      with True show ?thesis by (auto simp: v1_def)
    next
      assume "\<exists>index \<in> set rest. parent v' = Some index \<and>
               cost v' = calculate_distance (vx v1) (vy v1) (t0 ! index) \<and>
               connectible (s\<lparr>tree := t0 @ [v1]\<rparr>) v1 (t0 ! index)"
      then show ?thesis by (auto simp: conn pos)
    qed
    moreover have "s' = s\<lparr>tree := t0 @ [v']\<rparr>" using v'(1) by simp
    ultimately show ?thesis using v'(2,3) pos by auto
  next
    case False
    then have "rewire_loop s rest tot = Some s'"
      using Cons.prems(1) c nth lst
      by (auto simp: Let_def potential_def)
    from Cons.IH [OF this Cons.prems(2) rest] show ?thesis by auto
  qed
qed

text \<open>On a tree whose parent links point to earlier vertices the rewiring loop returns,
  and the cost of the new vertex ends no higher than it started and no higher than the
  cost through any candidate that passes the connectivity check.\<close>

lemma rewire_loop_optimal:
  assumes "parents_below t0"
    and "\<forall>index \<in> set near. index < length t0"
    and "tree s = t0 @ [v]"
    and "calculate_cost_from_start s v = Some tot"
  shows "\<exists>s' v' T. rewire_loop s near tot = Some s' \<and> tree s' = t0 @ [v'] \<and>
           calculate_cost_from_start s' v' = Some T \<and> T \<le> tot \<and>
           (\<forall>index \<in> set near. \<forall>c. calculate_cost_from_start s (t0 ! index) = Some c \<and>
                connectible s v (t0 ! index)
              \<longrightarrow> T \<le> c + calculate_distance (vx v) (vy v) (t0 ! index))"
  using assms(2-)
proof (induction near arbitrary: s v tot)
  case Nil
  then show ?case by simp
next
  case (Cons index rest)
  from Cons.prems(1) have idx: "index < length t0" and rest: "\<forall>i \<in> set rest. i < length t0"
    by simp_all
  have nth: "tree s ! index = t0 ! index"
    using Cons.prems(2) idx by (simp add: nth_append)
  have lst: "last (tree s) = v" using Cons.prems(2) by simp
  from cost_from_start_old [OF assms(1) idx] obtain c where
    c: "\<And>s ext. tree s = t0 @ ext \<Longrightarrow> calculate_cost_from_start s (t0 ! index) = Some c"
    and cw: "\<And>s ext (w :: Vertex). tree s = t0 @ ext \<Longrightarrow> parent w = Some index
                \<Longrightarrow> calculate_cost_from_start s w = Some (c + cost w)"
    by blast
  have cs: "calculate_cost_from_start s (tree s ! index) = Some c"
    using c [OF Cons.prems(2)] nth by simp
  define potential where "potential = c + calculate_distance (vx v) (vy v) (t0 ! index)"
  define v1 where "v1 = v\<lparr>parent := Some index,
                          cost := calculate_distance (vx v) (vy v) (t0 ! index)\<rparr>"
  have upd: "(tree s)[length (tree s) - 1 := v1] = t0 @ [v1]"
    using Cons.prems(2) by simp
  have old_same: "calculate_cost_from_start s1 (t0 ! j) = calculate_cost_from_start s (t0 ! j)"
    if "tree s1 = t0 @ [u]" "j < length t0" for s1 u j
  proof -
    from cost_from_start_old [OF assms(1) that(2)] obtain d where
      "\<And>s ext. tree s = t0 @ ext \<Longrightarrow> calculate_cost_from_start s (t0 ! j) = Some d"
      by blast
    from this [OF that(1)] this [OF Cons.prems(2)] show ?thesis by simp
  qed
  show ?case
  proof (cases "potential < tot \<and> connectible s v (t0 ! index)")
    case True
    define s1 where "s1 = s\<lparr>tree := t0 @ [v1]\<rparr>"
    have t1: "tree s1 = t0 @ [v1]" by (simp add: s1_def)
    have step: "rewire_loop s (index # rest) tot = rewire_loop s1 rest potential"
      using True cs nth lst upd by (simp add: Let_def potential_def v1_def s1_def)
    have "calculate_cost_from_start s1 v1 = Some (c + cost v1)"
      by (rule cw [OF t1]) (simp add: v1_def)
    then have tot1: "calculate_cost_from_start s1 v1 = Some potential"
      by (simp add: potential_def v1_def)
    from Cons.IH [OF rest t1 tot1] obtain s' v' T where
      r: "rewire_loop s1 rest potential = Some s'" "tree s' = t0 @ [v']"
         "calculate_cost_from_start s' v' = Some T" "T \<le> potential"
         "\<forall>index \<in> set rest. \<forall>c. calculate_cost_from_start s1 (t0 ! index) = Some c \<and>
                connectible s1 v1 (t0 ! index)
              \<longrightarrow> T \<le> c + calculate_distance (vx v1) (vy v1) (t0 ! index)"
      by blast
    have pos: "vx v1 = vx v" "vy v1 = vy v" by (simp_all add: v1_def)
    have conn: "connectible s1 v1 b = connectible s v b" for b
      using connectible_position [OF pos] by (simp add: s1_def)
    have "\<forall>j \<in> set (index # rest). \<forall>d. calculate_cost_from_start s (t0 ! j) = Some d \<and>
                connectible s v (t0 ! j)
              \<longrightarrow> T \<le> d + calculate_distance (vx v) (vy v) (t0 ! j)"
    proof (intro ballI allI impI)
      fix j d
      assume j: "j \<in> set (index # rest)"
        and d: "calculate_cost_from_start s (t0 ! j) = Some d \<and> connectible s v (t0 ! j)"
      show "T \<le> d + calculate_distance (vx v) (vy v) (t0 ! j)"
      proof (cases "j = index")
        case True
        with d cs nth have "d = c" by simp
        with r(4) True show ?thesis by (simp add: potential_def)
      next
        case False
        with j have jr: "j \<in> set rest" by simp
        with rest have "j < length t0" by simp
        from old_same [OF t1 this] d have "calculate_cost_from_start s1 (t0 ! j) = Some d"
          by simp
        with r(5) jr d show ?thesis by (simp add: conn pos)
      qed
    qed
    moreover from r(4) True have "T \<le> tot" by simp
    ultimately show ?thesis using step r(1,2,3) by auto
  next
    case False
    have step: "rewire_loop s (index # rest) tot = rewire_loop s rest tot"
      using False cs nth lst by (auto simp: Let_def potential_def)
    from Cons.IH [OF rest Cons.prems(2,3)] obtain s' v' T where
      r: "rewire_loop s rest tot = Some s'" "tree s' = t0 @ [v']"
         "calculate_cost_from_start s' v' = Some T" "T \<le> tot"
         "\<forall>index \<in> set rest. \<forall>c. calculate_cost_from_start s (t0 ! index) = Some c \<and>
                connectible s v (t0 ! index)
              \<longrightarrow> T \<le> c + calculate_distance (vx v) (vy v) (t0 ! index)"
      by blast
    have "\<forall>j \<in> set (index # rest). \<forall>d. calculate_cost_from_start s (t0 ! j) = Some d \<and>
                connectible s v (t0 ! j)
              \<longrightarrow> T \<le> d + calculate_distance (vx v) (vy v) (t0 ! j)"
    proof (intro ballI allI impI)
      fix j d
      assume j: "j \<in> set (index # rest)"
        and d: "calculate_cost_from_start s (t0 ! j) = Some d \<and> connectible s v (t0 ! j)"
      show "T \<le> d + calculate_distance (vx v) (vy v) (t0 ! j)"
      proof (cases "j = index")
        case True
        with d cs nth have "d = c" by simp
        with False d True have "\<not> potential < tot" by simp
        with r(4) \<open>d = c\<close> True show ?thesis by (simp add: potential_def)
      next
        case False
        with j have "j \<in> set rest" by simp
        with r(5) d show ?thesis by blast
      qed
    qed
    with step r(1-4) show ?thesis by auto
  qed
qed

lemma calculate_distance_commute:
  "calculate_distance (vx a) (vy a) b = calculate_distance (vx b) (vy b) a"
  by (simp add: calculate_distance_def power2_commute)

lemma calculate_distance_mk_Vertex:
  "calculate_distance px py (mk_Vertex qx qy) = calculate_distance qx qy (mk_Vertex px py)"
  by (simp add: calculate_distance_def mk_Vertex_def power2_commute)

text \<open>The shape of a successful round: either the state is untouched, or exactly one vertex
  is appended whose parent is the nearest vertex or a vertex of the near set.\<close>

lemma insert_sample_shape:
  assumes "insert_sample s rand_x rand_y = Some (inserted, s')"
  shows "(\<not> inserted \<longrightarrow> s' = s) \<and>
     (inserted \<longrightarrow>
        (\<exists>v p. s' = s\<lparr>tree := tree s @ [v]\<rparr> \<and> vx v = rand_x \<and> vy v = rand_y \<and>
           p < length (tree s) \<and> parent v = Some p \<and>
           cost v = calculate_distance rand_x rand_y (tree s ! p) \<and>
           ((nearest_neighbor s rand_x rand_y = Some p \<and> connectible s (tree s ! p) v) \<or>
            (p \<in> set (findVerticesInsideCircle s rand_x rand_y
                        (calculateBallRadius s (int (length (tree s))) 2 2)) \<and>
             connectible s v (tree s ! p)))))"
proof -
  from assms obtain n where n: "nearest_neighbor s rand_x rand_y = Some n"
    by (cases "nearest_neighbor s rand_x rand_y") (simp_all add: insert_sample_def)
  then have nlen: "n < length (tree s)" by (rule nearest_neighbor_bound)
  define new_position where "new_position = (mk_Vertex rand_x rand_y)
      \<lparr>parent := Some n,
       cost := calculate_distance (vx (tree s ! n)) (vy (tree s ! n)) (mk_Vertex rand_x rand_y)\<rparr>"
  define near where "near = findVerticesInsideCircle s rand_x rand_y
      (calculateBallRadius s (int (length (tree s))) 2 2)"
  have np: "vx new_position = rand_x" "vy new_position = rand_y" "parent new_position = Some n"
    "cost new_position = calculate_distance rand_x rand_y (tree s ! n)"
    by (simp_all add: new_position_def mk_Vertex_def calculate_distance_def power2_commute)
  show ?thesis
  proof (cases "connectible s (tree s ! n) new_position")
    case False
    with assms n have "\<not> inserted" "s' = s"
      by (auto simp: insert_sample_def Let_def new_position_def)
    then show ?thesis by simp
  next
    case True
    define s1 where "s1 = s\<lparr>tree := tree s @ [new_position]\<rparr>"
    from assms n True obtain tot where
      "calculate_cost_from_start s1 (last (tree s1)) = Some tot"
      by (cases "calculate_cost_from_start s1 (last (tree s1))")
         (simp_all add: insert_sample_def Let_def new_position_def s1_def)
    with assms n True obtain s2 where
      s2: "rewire_loop s1 near tot = Some s2" and r: "inserted" "s' = s2"
      by (cases "rewire_loop s1 near tot")
         (auto simp: insert_sample_def Let_def new_position_def s1_def near_def mk_Vertex_def)
    have t1: "tree s1 = tree s @ [new_position]" by (simp add: s1_def)
    have nb: "\<forall>index \<in> set near. index < length (tree s)"
      by (auto simp: near_def dest: findVerticesInsideCircle_bound)
    from rewire_loop_shape [OF s2 t1 nb] obtain v' where
      v': "s2 = s1\<lparr>tree := tree s @ [v']\<rparr>" "vx v' = vx new_position" "vy v' = vy new_position"
        "(parent v' = parent new_position \<and> cost v' = cost new_position) \<or>
            (\<exists>index \<in> set near. parent v' = Some index \<and>
               cost v' = calculate_distance (vx new_position) (vy new_position) (tree s ! index) \<and>
               connectible s1 new_position (tree s ! index))"
      by blast
    have s': "s' = s\<lparr>tree := tree s @ [v']\<rparr>"
      using r(2) v'(1) by (simp add: s1_def)
    have c1: "connectible s (tree s ! n) v' = connectible s (tree s ! n) new_position"
      using v'(2,3) by (simp add: connectible_def)
    have c2: "connectible s1 new_position b = connectible s v' b" for b
      using connectible_position [OF v'(2,3)] by (simp add: s1_def)
    from v'(4) have "\<exists>p. p < length (tree s) \<and> parent v' = Some p \<and>
           cost v' = calculate_distance rand_x rand_y (tree s ! p) \<and>
           ((nearest_neighbor s rand_x rand_y = Some p \<and> connectible s (tree s ! p) v') \<or>
            (p \<in> set near \<and> connectible s v' (tree s ! p)))"
    proof
      assume "parent v' = parent new_position \<and> cost v' = cost new_position"
      with np n nlen True c1 show ?thesis by auto
    next
      assume "\<exists>index \<in> set near. parent v' = Some index \<and>
               cost v' = calculate_distance (vx new_position) (vy new_position) (tree s ! index) \<and>
               connectible s1 new_position (tree s ! index)"
      then obtain index where "index \<in> set near" "parent v' = Some index"
        "cost v' = calculate_distance rand_x rand_y (tree s ! index)"
        "connectible s v' (tree s ! index)"
        using np c2 by auto
      with nb show ?thesis by auto
    qed
    with s' r(1) v'(2,3) np show ?thesis
      unfolding near_def by auto
  qed
qed

text \<open>On a non-empty tree whose parent links point to earlier vertices a round returns;
  when it inserts, the cost of the new vertex is at most the cost through the nearest
  vertex and at most the cost through any vertex of the near set that passes the
  connectivity check.\<close>

lemma insert_sample_optimal:
  assumes pb: "parents_below (tree s)" and ne: "tree s \<noteq> []"
  shows "\<exists>inserted s'. insert_sample s rand_x rand_y = Some (inserted, s') \<and>
     (inserted \<longrightarrow>
        (\<exists>T. calculate_cost_from_start s' (last (tree s')) = Some T \<and>
           (\<forall>n c. nearest_neighbor s rand_x rand_y = Some n \<and>
                calculate_cost_from_start s (tree s ! n) = Some c
              \<longrightarrow> T \<le> c + calculate_distance rand_x rand_y (tree s ! n)) \<and>
           (\<forall>q \<in> set (findVerticesInsideCircle s rand_x rand_y
                         (calculateBallRadius s (int (length (tree s))) 2 2)).
              \<forall>c. calculate_cost_from_start s (tree s ! q) = Some c \<and>
                connectible s (last (tree s')) (tree s ! q)
              \<longrightarrow> T \<le> c + calculate_distance rand_x rand_y (tree s ! q))))"
proof -
  from nearest_neighbor_Some [OF ne] obtain n where n: "nearest_neighbor s rand_x rand_y = Some n"
    by blast
  then have nlen: "n < length (tree s)" by (rule nearest_neighbor_bound)
  define new_position where "new_position = (mk_Vertex rand_x rand_y)
      \<lparr>parent := Some n,
       cost := calculate_distance (vx (tree s ! n)) (vy (tree s ! n)) (mk_Vertex rand_x rand_y)\<rparr>"
  define near where "near = findVerticesInsideCircle s rand_x rand_y
      (calculateBallRadius s (int (length (tree s))) 2 2)"
  have np: "vx new_position = rand_x" "vy new_position = rand_y" "parent new_position = Some n"
    "cost new_position = calculate_distance rand_x rand_y (tree s ! n)"
    by (simp_all add: new_position_def mk_Vertex_def calculate_distance_def power2_commute)
  show ?thesis
  proof (cases "connectible s (tree s ! n) new_position")
    case False
    with n have "insert_sample s rand_x rand_y = Some (False, s)"
      by (simp add: insert_sample_def Let_def new_position_def)
    then show ?thesis by blast
  next
    case True
    define s1 where "s1 = s\<lparr>tree := tree s @ [new_position]\<rparr>"
    have t1: "tree s1 = tree s @ [new_position]" by (simp add: s1_def)
    have t0: "tree s = tree s @ []" by simp
    from cost_from_start_old [OF pb nlen] obtain cn where
      cn: "\<And>s' ext. tree s' = tree s @ ext \<Longrightarrow> calculate_cost_from_start s' (tree s ! n) = Some cn"
      and cw: "\<And>s' ext (w :: Vertex). tree s' = tree s @ ext \<Longrightarrow> parent w = Some n
                \<Longrightarrow> calculate_cost_from_start s' w = Some (cn + cost w)"
      by blast
    have tot: "calculate_cost_from_start s1 new_position = Some (cn + cost new_position)"
      by (rule cw [OF t1 np(3)])
    have nb: "\<forall>index \<in> set near. index < length (tree s)"
      by (auto simp: near_def dest: findVerticesInsideCircle_bound)
    from rewire_loop_optimal [OF pb nb t1 tot] obtain s' v' T where
      r: "rewire_loop s1 near (cn + cost new_position) = Some s'" "tree s' = tree s @ [v']"
         "calculate_cost_from_start s' v' = Some T" "T \<le> cn + cost new_position"
         "\<forall>index \<in> set near. \<forall>c. calculate_cost_from_start s1 (tree s ! index) = Some c \<and>
                connectible s1 new_position (tree s ! index)
              \<longrightarrow> T \<le> c + calculate_distance (vx new_position) (vy new_position) (tree s ! index)"
      by blast
    have near': "findVerticesInsideCircle s (vx new_position) (vy new_position)
        (calculateBallRadius s (int (length (tree s))) 2 2) = near"
      by (simp add: near_def np)
    have ins: "insert_sample s rand_x rand_y = Some (True, s')"
      using n True tot r(1) by (simp add: insert_sample_def Let_def new_position_def [symmetric]
          near' s1_def [symmetric] t1)
    from rewire_loop_shape [OF r(1) t1 nb] r(2) have pos: "vx v' = rand_x" "vy v' = rand_y"
      using np by auto
    have lst: "last (tree s') = v'" using r(2) by simp
    have conn: "connectible s1 new_position b = connectible s v' b" for b
      using connectible_position [of v' new_position s b] pos np by (simp add: s1_def)
    have old_same: "calculate_cost_from_start s1 (tree s ! j) = calculate_cost_from_start s (tree s ! j)"
      if "j < length (tree s)" for j
    proof -
      from cost_from_start_old [OF pb that] obtain d where
        "\<And>s' ext. tree s' = tree s @ ext \<Longrightarrow> calculate_cost_from_start s' (tree s ! j) = Some d"
        by blast
      from this [OF t1] this [OF t0] show ?thesis by simp
    qed
    have a: "\<forall>m c. nearest_neighbor s rand_x rand_y = Some m \<and>
                calculate_cost_from_start s (tree s ! m) = Some c
              \<longrightarrow> T \<le> c + calculate_distance rand_x rand_y (tree s ! m)"
      using n cn [OF t0] r(4) np(4) by auto
    have b: "\<forall>q \<in> set near. \<forall>c. calculate_cost_from_start s (tree s ! q) = Some c \<and>
                connectible s (last (tree s')) (tree s ! q)
              \<longrightarrow> T \<le> c + calculate_distance rand_x rand_y (tree s ! q)"
    proof (intro ballI allI impI)
      fix q c
      assume q: "q \<in> set near"
        and c: "calculate_cost_from_start s (tree s ! q) = Some c \<and>
                connectible s (last (tree s')) (tree s ! q)"
      from q nb have "q < length (tree s)" by simp
      from old_same [OF this] c have "calculate_cost_from_start s1 (tree s ! q) = Some c"
        by simp
      moreover from c have "connectible s1 new_position (tree s ! q)"
        by (simp add: conn lst)
      ultimately show "T \<le> c + calculate_distance rand_x rand_y (tree s ! q)"
        using r(5) q np by auto
    qed
    from ins r(3) lst a b show ?thesis
      unfolding near_def by auto
  qed
qed

text \<open>
  Claim C3.  A round of the growth loop that returns either leaves the planner untouched
  (the sample was discarded) or appends exactly one vertex at the sampled position.  The
  parent of the new vertex is the nearest vertex or a vertex of the near set, with the
  connectivity check passed, and its edge cost is the distance to that parent.  Every
  vertex that was in the tree before is unchanged, parent and edge cost included, and no
  other member variable changes.  On a tree whose parent links point to earlier vertices,
  the new vertex ends with a total cost that is at most the cost through the nearest vertex
  and at most the cost through any near-set vertex that passes the connectivity check.
\<close>

theorem insertion_changes_only_new_vertex:
  assumes "insert_sample s rand_x rand_y = Some (inserted, s')"
  shows "(\<not> inserted \<longrightarrow> s' = s)
     \<and> (inserted \<longrightarrow>
        (\<exists>v p. s' = s\<lparr>tree := tree s @ [v]\<rparr> \<and> vx v = rand_x \<and> vy v = rand_y \<and>
           p < length (tree s) \<and> parent v = Some p \<and>
           cost v = calculate_distance rand_x rand_y (tree s ! p) \<and>
           ((nearest_neighbor s rand_x rand_y = Some p \<and> connectible s (tree s ! p) v) \<or>
            (p \<in> set (findVerticesInsideCircle s rand_x rand_y
                        (calculateBallRadius s (int (length (tree s))) 2 2)) \<and>
             connectible s v (tree s ! p)))))
     \<and> (\<forall>i < length (tree s). tree s' ! i = tree s ! i)
     \<and> (parents_below (tree s) \<and> inserted \<longrightarrow>
        (\<exists>T. calculate_cost_from_start s' (last (tree s')) = Some T \<and>
           (\<forall>n c. nearest_neighbor s rand_x rand_y = Some n \<and>
                calculate_cost_from_start s (tree s ! n) = Some c
              \<longrightarrow> T \<le> c + calculate_distance rand_x rand_y (tree s ! n)) \<and>
           (\<forall>q \<in> set (findVerticesInsideCircle s rand_x rand_y
                         (calculateBallRadius s (int (length (tree s))) 2 2)).
              \<forall>c. calculate_cost_from_start s (tree s ! q) = Some c \<and>
                connectible s (last (tree s')) (tree s ! q)
              \<longrightarrow> T \<le> c + calculate_distance rand_x rand_y (tree s ! q))))"
proof -
  note shape = insert_sample_shape [OF assms]
  have frame: "\<forall>i < length (tree s). tree s' ! i = tree s ! i"
  proof (cases inserted)
    case True
    with shape obtain v where "s' = s\<lparr>tree := tree s @ [v]\<rparr>" by blast
    then show ?thesis by (simp add: nth_append)
  next
    case False
    with shape show ?thesis by simp
  qed
  have opt: "\<exists>T. calculate_cost_from_start s' (last (tree s')) = Some T \<and>
           (\<forall>n c. nearest_neighbor s rand_x rand_y = Some n \<and>
                calculate_cost_from_start s (tree s ! n) = Some c
              \<longrightarrow> T \<le> c + calculate_distance rand_x rand_y (tree s ! n)) \<and>
           (\<forall>q \<in> set (findVerticesInsideCircle s rand_x rand_y
                         (calculateBallRadius s (int (length (tree s))) 2 2)).
              \<forall>c. calculate_cost_from_start s (tree s ! q) = Some c \<and>
                connectible s (last (tree s')) (tree s ! q)
              \<longrightarrow> T \<le> c + calculate_distance rand_x rand_y (tree s ! q))"
    if pb: "parents_below (tree s)" and ins: inserted
  proof -
    from assms obtain n where "nearest_neighbor s rand_x rand_y = Some n"
      by (cases "nearest_neighbor s rand_x rand_y") (simp_all add: insert_sample_def)
    then have "tree s \<noteq> []" using nearest_neighbor_bound by fastforce
    from insert_sample_optimal [OF pb this, of rand_x rand_y] assms ins
    show ?thesis by auto
  qed
  from shape frame opt show ?thesis by blast
qed
section \<open>Properties of tree growth\<close>

lemma connectible_end_position:
  "vx b' = vx b \<Longrightarrow> vy b' = vy b \<Longrightarrow> connectible s a b' = connectible s a b"
  by (simp add: connectible_def)

text \<open>A round discards its sample exactly when the connectivity check from the nearest
  vertex to the sample fails; the planner is then left as it was.\<close>

lemma insert_sample_discard:
  assumes "nearest_neighbor s rand_x rand_y = Some n"
    and "\<not> connectible s (tree s ! n) (mk_Vertex rand_x rand_y)"
  shows "insert_sample s rand_x rand_y = Some (False, s)"
proof -
  have "connectible s (tree s ! n) ((mk_Vertex rand_x rand_y)
      \<lparr>parent := Some n,
       cost := calculate_distance (vx (tree s ! n)) (vy (tree s ! n)) (mk_Vertex rand_x rand_y)\<rparr>)
      = connectible s (tree s ! n) (mk_Vertex rand_x rand_y)"
    by (rule connectible_end_position) simp_all
  with assms show ?thesis
    by (simp add: insert_sample_def Let_def)
qed

lemma insert_sample_discarded:
  assumes "insert_sample s rand_x rand_y = Some (False, s1)"
  shows "s1 = s \<and> (\<exists>n. nearest_neighbor s rand_x rand_y = Some n \<and>
           \<not> connectible s (tree s ! n) (mk_Vertex rand_x rand_y))"
proof -
  from assms obtain n where n: "nearest_neighbor s rand_x rand_y = Some n"
    by (cases "nearest_neighbor s rand_x rand_y") (simp_all add: insert_sample_def)
  have eq: "connectible s (tree s ! n) ((mk_Vertex rand_x rand_y)
      \<lparr>parent := Some n,
       cost := calculate_distance (vx (tree s ! n)) (vy (tree s ! n)) (mk_Vertex rand_x rand_y)\<rparr>)
      = connectible s (tree s ! n) (mk_Vertex rand_x rand_y)"
    by (rule connectible_end_position) simp_all
  have "\<not> connectible s (tree s ! n) (mk_Vertex rand_x rand_y)"
  proof
    assume "connectible s (tree s ! n) (mk_Vertex rand_x rand_y)"
    with eq assms n show False
      by (auto simp: insert_sample_def Let_def split: option.splits)
  qed
  with n insert_sample_shape [OF assms] show ?thesis by simp
qed

lemma insert_sample_inserts:
  assumes "nearest_neighbor s rand_x rand_y = Some n"
    and "connectible s (tree s ! n) (mk_Vertex rand_x rand_y)"
    and "parents_below (tree s)"
  shows "\<exists>s1. insert_sample s rand_x rand_y = Some (True, s1) \<and>
           length (tree s1) = length (tree s) + 1"
proof -
  from assms(1) have "tree s \<noteq> []" using nearest_neighbor_bound by fastforce
  from insert_sample_optimal [OF assms(3) this, of rand_x rand_y] obtain inserted s1 where
    r: "insert_sample s rand_x rand_y = Some (inserted, s1)"
    by blast
  have inserted
  proof (rule ccontr)
    assume "\<not> inserted"
    with r have "insert_sample s rand_x rand_y = Some (False, s1)" by simp
    from insert_sample_discarded [OF this] assms(1,2) show False by simp
  qed
  with r insert_sample_shape [OF r] show ?thesis by auto
qed

lemma tree_ok_initial: "tree_ok sx sy [(mk_Vertex sx sy)\<lparr>cost := 0\<rparr>]"
  by (simp add: tree_ok_def mk_Vertex_def)

lemma tree_ok_append:
  assumes "tree_ok sx sy t" and "0 \<le> cost v" and "parent v = Some p" and "p < length t"
  shows "tree_ok sx sy (t @ [v])"
proof -
  from assms(1) have ne: "t \<noteq> []" and root: "t ! 0 = \<lparr>vx = sx, vy = sy, cost = 0, parent = None\<rparr>"
    and old: "\<And>i. i < length t \<Longrightarrow> 0 < i \<Longrightarrow> 0 \<le> cost (t ! i) \<and> (\<exists>p < i. parent (t ! i) = Some p)"
    by (simp_all add: tree_ok_def)
  have "0 \<le> cost ((t @ [v]) ! i) \<and> (\<exists>p < i. parent ((t @ [v]) ! i) = Some p)"
    if "i < length (t @ [v])" "0 < i" for i
  proof (cases "i < length t")
    case True
    with old [OF True that(2)] show ?thesis by (simp add: nth_append)
  next
    case False
    with that have "i = length t" by simp
    with assms(2-4) show ?thesis by simp
  qed
  moreover have "(t @ [v]) ! 0 = \<lparr>vx = sx, vy = sy, cost = 0, parent = None\<rparr>"
    using ne root by (simp add: nth_append)
  ultimately show ?thesis by (simp add: tree_ok_def)
qed

lemma insert_sample_tree_ok:
  assumes "insert_sample s rand_x rand_y = Some (inserted, s')" and "tree_ok sx sy (tree s)"
  shows "tree_ok sx sy (tree s')"
proof (cases inserted)
  case False
  with insert_sample_shape [OF assms(1)] assms(2) show ?thesis by simp
next
  case True
  with insert_sample_shape [OF assms(1)] obtain v p where
    v: "s' = s\<lparr>tree := tree s @ [v]\<rparr>" "p < length (tree s)" "parent v = Some p"
       "cost v = calculate_distance rand_x rand_y (tree s ! p)"
    by blast
  have "0 \<le> cost v" using v(4) by (simp add: calculate_distance_nonneg)
  from tree_ok_append [OF assms(2) this v(3) v(2)] v(1) show ?thesis by simp
qed

text \<open>What the growth loop has done when it returns: it has appended
  \<open>max_iterations - i\<close> vertices (none when the counter is already past the budget),
  changed nothing else, and kept the invariant of the tree.\<close>

lemma grow_result:
  assumes "grow rnd i k s = Some s'"
  shows "\<exists>ext. s' = s\<lparr>tree := tree s @ ext\<rparr> \<and>
           int (length ext) = max 0 (max_iterations s - i) \<and>
           (\<forall>sx sy. tree_ok sx sy (tree s) \<longrightarrow> tree_ok sx sy (tree s'))"
proof -
  let ?P = "\<lambda>(rnd :: sampler) (i :: int) (k :: nat) (s :: RRTStar) (s' :: RRTStar).
    \<exists>ext. s' = s\<lparr>tree := tree s @ ext\<rparr> \<and>
           int (length ext) = max 0 (max_iterations s - i) \<and>
           (\<forall>sx sy. tree_ok sx sy (tree s) \<longrightarrow> tree_ok sx sy (tree s'))"
  have "?P rnd i k s s'"
  proof (rule grow.raw_induct [where P = ?P, OF _ assms])
    fix grow' :: "sampler \<Rightarrow> int \<Rightarrow> nat \<Rightarrow> RRTStar \<Rightarrow> RRTStar option"
      and rnd i k s s'
    assume IH: "\<And>rnd i k s s'. grow' rnd i k s = Some s' \<Longrightarrow> ?P rnd i k s s'"
      and body: "(if i \<le> max_iterations s - 1 then
        (case draw_sample rnd i k of
           (rand_x, rand_y) \<Rightarrow>
             (case insert_sample s rand_x rand_y of
                None \<Rightarrow> None
              | Some (inserted, s') \<Rightarrow>
                  if inserted then grow' rnd (i + 1) (k + 2) s'
                  else grow' rnd (i - 1 + 1) (k + 2) s'))
      else Some s) = Some s'"
    show "?P rnd i k s s'"
    proof (cases "i \<le> max_iterations s - 1")
      case False
      with body have same: "s' = s" by simp
      show ?thesis
        unfolding same using False by (intro exI [of _ "[]"]) simp
    next
      case True
      obtain rand_x rand_y where d: "draw_sample rnd i k = (rand_x, rand_y)"
        by (cases "draw_sample rnd i k")
      from body True d obtain inserted s1 where
        ins: "insert_sample s rand_x rand_y = Some (inserted, s1)"
        by (cases "insert_sample s rand_x rand_y") auto
      note shape = insert_sample_shape [OF ins]
      show ?thesis
      proof (cases inserted)
        case ins_true: True
        with body True d ins have "grow' rnd (i + 1) (k + 2) s1 = Some s'" by simp
        from IH [OF this] obtain ext where
          e: "s' = s1\<lparr>tree := tree s1 @ ext\<rparr>"
             "int (length ext) = max 0 (max_iterations s1 - (i + 1))"
             "\<forall>sx sy. tree_ok sx sy (tree s1) \<longrightarrow> tree_ok sx sy (tree s')"
          by blast
        from shape ins_true obtain v where v: "s1 = s\<lparr>tree := tree s @ [v]\<rparr>" by blast
        have "s' = s\<lparr>tree := tree s @ (v # ext)\<rparr>" using e(1) v by simp
        moreover have "int (length (v # ext)) = max 0 (max_iterations s - i)"
          using e(2) v True by simp
        moreover have "\<forall>sx sy. tree_ok sx sy (tree s) \<longrightarrow> tree_ok sx sy (tree s')"
          using e(3) insert_sample_tree_ok [OF ins] by blast
        ultimately show ?thesis by blast
      next
        case ins_false: False
        with shape have same: "s1 = s" by simp
        from body True d ins ins_false have "grow' rnd (i - 1 + 1) (k + 2) s1 = Some s'"
          by simp
        from IH [OF this] same show ?thesis by simp
      qed
    qed
  qed
  then show ?thesis .
qed

lemma grow_discard:
  assumes "i \<le> max_iterations s - 1"
    and "insert_sample s (fst (draw_sample rnd i k)) (snd (draw_sample rnd i k)) = Some (False, s1)"
  shows "grow rnd i k s = grow rnd i (k + 2) s"
proof -
  from insert_sample_shape [OF assms(2)] have "s1 = s" by simp
  with assms show ?thesis
    by (subst grow.simps) (simp add: case_prod_beta)
qed

lemma grow_insert:
  assumes "i \<le> max_iterations s - 1"
    and "insert_sample s (fst (draw_sample rnd i k)) (snd (draw_sample rnd i k)) = Some (True, s1)"
  shows "grow rnd i k s = grow rnd (i + 1) (k + 2) s1"
  using assms by (subst grow.simps) (simp add: case_prod_beta)

lemma grow_done: "\<not> i \<le> max_iterations s - 1 \<Longrightarrow> grow rnd i k s = Some s"
  by (subst grow.simps) simp

text \<open>
  Claim C7.  \<^verbatim>\<open>configure\<close> sets the budget to 1000.  In a round of the growth loop the
  sample is checked against its nearest vertex, the first vertex of the tree at the least
  distance from it.  When that connectivity check fails the sample is discarded: the
  planner is left as it was and the loop goes on with the same counter, only further in
  the random stream; a round discards its sample in no other case.  When the check passes
  (on a tree whose parent links point to earlier vertices) the round inserts one vertex
  and the counter advances by one.  So when the growth loop returns it has appended
  exactly \<open>max_iterations - i\<close> vertices: started at \<open>i = 1\<close> on the tree that holds only the
  root, it returns a tree of \<open>max_iterations\<close> vertices, 1000 for the configured planner.
\<close>

theorem growth_budget:
  "max_iterations (configure s0 frame cm res) = 1000
   \<and> (tree s \<noteq> [] \<longrightarrow>
        (\<exists>n. nearest_neighbor s rand_x rand_y = Some n \<and> n < length (tree s) \<and>
           (\<forall>j < length (tree s).
              calculate_distance rand_x rand_y (tree s ! n)
                \<le> calculate_distance rand_x rand_y (tree s ! j)) \<and>
           (\<forall>j < n.
              calculate_distance rand_x rand_y (tree s ! n)
                < calculate_distance rand_x rand_y (tree s ! j)) \<and>
           (\<not> connectible s (tree s ! n) (mk_Vertex rand_x rand_y)
              \<longrightarrow> insert_sample s rand_x rand_y = Some (False, s)) \<and>
           (connectible s (tree s ! n) (mk_Vertex rand_x rand_y) \<and> parents_below (tree s)
              \<longrightarrow> (\<exists>s1. insert_sample s rand_x rand_y = Some (True, s1) \<and>
                     length (tree s1) = length (tree s) + 1))))
   \<and> (i \<le> max_iterations s - 1 \<and>
        insert_sample s (fst (draw_sample rnd i k)) (snd (draw_sample rnd i k)) = Some (False, s1)
      \<longrightarrow> s1 = s \<and> grow rnd i k s = grow rnd i (k + 2) s \<and>
          (\<exists>n. nearest_neighbor s (fst (draw_sample rnd i k)) (snd (draw_sample rnd i k)) = Some n \<and>
             \<not> connectible s (tree s ! n)
                 (mk_Vertex (fst (draw_sample rnd i k)) (snd (draw_sample rnd i k)))))
   \<and> (i \<le> max_iterations s - 1 \<and>
        insert_sample s (fst (draw_sample rnd i k)) (snd (draw_sample rnd i k)) = Some (True, s1)
      \<longrightarrow> length (tree s1) = length (tree s) + 1 \<and> max_iterations s1 = max_iterations s \<and>
          grow rnd i k s = grow rnd (i + 1) (k + 2) s1)
   \<and> (grow rnd i k s = Some s'
      \<longrightarrow> int (length (tree s')) = int (length (tree s)) + max 0 (max_iterations s - i))
   \<and> (grow rnd 1 k s = Some s' \<and> length (tree s) = 1 \<and> max_iterations s = 1000
      \<longrightarrow> length (tree s') = 1000)"
proof -
  have a: "max_iterations (configure s0 frame cm res) = 1000"
    by (simp add: configure_def)
  have n: "\<exists>n. nearest_neighbor s rand_x rand_y = Some n \<and> n < length (tree s) \<and>
           (\<forall>j < length (tree s).
              calculate_distance rand_x rand_y (tree s ! n)
                \<le> calculate_distance rand_x rand_y (tree s ! j)) \<and>
           (\<forall>j < n.
              calculate_distance rand_x rand_y (tree s ! n)
                < calculate_distance rand_x rand_y (tree s ! j)) \<and>
           (\<not> connectible s (tree s ! n) (mk_Vertex rand_x rand_y)
              \<longrightarrow> insert_sample s rand_x rand_y = Some (False, s)) \<and>
           (connectible s (tree s ! n) (mk_Vertex rand_x rand_y) \<and> parents_below (tree s)
              \<longrightarrow> (\<exists>s1. insert_sample s rand_x rand_y = Some (True, s1) \<and>
                     length (tree s1) = length (tree s) + 1))"
    if "tree s \<noteq> []"
  proof -
    from nearest_neighbor_Some [OF that] obtain n where
      nn: "nearest_neighbor s rand_x rand_y = Some n"
      by blast
    from nearest_neighbor_min [OF nn] insert_sample_discard [OF nn] insert_sample_inserts [OF nn] nn
    show ?thesis by blast
  qed
  have b: "s1 = s \<and> grow rnd i k s = grow rnd i (k + 2) s \<and>
          (\<exists>n. nearest_neighbor s (fst (draw_sample rnd i k)) (snd (draw_sample rnd i k)) = Some n \<and>
             \<not> connectible s (tree s ! n)
                 (mk_Vertex (fst (draw_sample rnd i k)) (snd (draw_sample rnd i k))))"
    if "i \<le> max_iterations s - 1"
      "insert_sample s (fst (draw_sample rnd i k)) (snd (draw_sample rnd i k)) = Some (False, s1)"
    using insert_sample_discarded [OF that(2)] grow_discard [OF that] by simp
  have c: "length (tree s1) = length (tree s) + 1 \<and> max_iterations s1 = max_iterations s \<and>
          grow rnd i k s = grow rnd (i + 1) (k + 2) s1"
    if "i \<le> max_iterations s - 1"
      "insert_sample s (fst (draw_sample rnd i k)) (snd (draw_sample rnd i k)) = Some (True, s1)"
    using insert_sample_shape [OF that(2)] grow_insert [OF that] by auto
  have d: "int (length (tree s')) = int (length (tree s)) + max 0 (max_iterations s - i)"
    if "grow rnd i k s = Some s'" for i s
    using grow_result [OF that] by auto
  have e: "length (tree s') = 1000"
    if "grow rnd 1 k s = Some s'" "length (tree s) = 1" "max_iterations s = 1000"
    using d [OF that(1)] that(2,3) by simp
  from a n b c d e show ?thesis by blast
qed

section \<open>Properties of the goal connector and of the path extraction\<close>

lemma less_bound_trans: "less_bound a m \<Longrightarrow> bound_less m d \<Longrightarrow> a < d"
  by (cases m) simp_all

lemma not_less_bound: "\<not> less_bound a m \<Longrightarrow> a < d \<Longrightarrow> bound_less m d"
  by (cases m) simp_all

text \<open>A scan only rewrites the parent and the edge cost of the goal vertex, and only to a
  vertex of the near set that passed the connectivity check.\<close>

lemma goal_scan_shape:
  assumes "goal_scan s gx gy near ev mc = Some (ev', mc')"
  shows "vx ev' = vx ev \<and> vy ev' = vy ev \<and>
     ((ev' = ev \<and> mc' = mc) \<or>
      (\<exists>index \<in> set near. \<exists>c. parent ev' = Some index \<and>
          cost ev' = calculate_distance gx gy (tree s ! index) \<and>
          calculate_cost_from_start s (tree s ! index) = Some c \<and>
          mc' = Finite (c + calculate_distance gx gy (tree s ! index)) \<and>
          connectible s ev (tree s ! index)))"
  using assms
proof (induction near arbitrary: ev mc)
  case Nil
  then show ?case by simp
next
  case (Cons index rest)
  from Cons.prems obtain c where c: "calculate_cost_from_start s (tree s ! index) = Some c"
    by (cases "calculate_cost_from_start s (tree s ! index)") simp_all
  define potential where "potential = c + calculate_distance gx gy (tree s ! index)"
  define ev1 where "ev1 = ev\<lparr>parent := Some index,
                             cost := calculate_distance gx gy (tree s ! index)\<rparr>"
  show ?case
  proof (cases "less_bound potential mc \<and> connectible s ev (tree s ! index)")
    case True
    with Cons.prems c have "goal_scan s gx gy rest ev1 (Finite potential) = Some (ev', mc')"
      by (simp add: Let_def potential_def ev1_def)
    from Cons.IH [OF this] have
      r: "vx ev' = vx ev1" "vy ev' = vy ev1"
         "(ev' = ev1 \<and> mc' = Finite potential) \<or>
          (\<exists>index \<in> set rest. \<exists>c. parent ev' = Some index \<and>
              cost ev' = calculate_distance gx gy (tree s ! index) \<and>
              calculate_cost_from_start s (tree s ! index) = Some c \<and>
              mc' = Finite (c + calculate_distance gx gy (tree s ! index)) \<and>
              connectible s ev1 (tree s ! index))"
      by simp_all
    have pos: "vx ev1 = vx ev" "vy ev1 = vy ev" by (simp_all add: ev1_def)
    have conn: "connectible s ev1 b = connectible s ev b" for b
      by (rule connectible_position [OF pos])
    from r(3) have "\<exists>index \<in> set (index # rest). \<exists>c. parent ev' = Some index \<and>
          cost ev' = calculate_distance gx gy (tree s ! index) \<and>
          calculate_cost_from_start s (tree s ! index) = Some c \<and>
          mc' = Finite (c + calculate_distance gx gy (tree s ! index)) \<and>
          connectible s ev (tree s ! index)"
    proof
      assume "ev' = ev1 \<and> mc' = Finite potential"
      with True c show ?thesis by (auto simp: ev1_def potential_def)
    next
      assume "\<exists>index \<in> set rest. \<exists>c. parent ev' = Some index \<and>
              cost ev' = calculate_distance gx gy (tree s ! index) \<and>
              calculate_cost_from_start s (tree s ! index) = Some c \<and>
              mc' = Finite (c + calculate_distance gx gy (tree s ! index)) \<and>
              connectible s ev1 (tree s ! index)"
      then show ?thesis by (auto simp: conn)
    qed
    with r(1,2) pos show ?thesis by simp
  next
    case False
    with Cons.prems c have "goal_scan s gx gy rest ev mc = Some (ev', mc')"
      by (auto simp: Let_def potential_def)
    from Cons.IH [OF this] show ?thesis by auto
  qed
qed

text \<open>The cost a scan ends with is below a bound \<open>d\<close> exactly when the cost it started with
  was, or some vertex of the near set passes the connectivity check with a cost below
  \<open>d\<close>: the scan computes the minimum over the verified candidates.\<close>

lemma goal_scan_min:
  assumes "goal_scan s gx gy near ev mc = Some (ev', mc')"
  shows "bound_less mc' d \<longleftrightarrow>
     bound_less mc d \<or>
     (\<exists>index \<in> set near. \<exists>c. calculate_cost_from_start s (tree s ! index) = Some c \<and>
        connectible s ev (tree s ! index) \<and> c + calculate_distance gx gy (tree s ! index) < d)"
  using assms
proof (induction near arbitrary: ev mc)
  case Nil
  then show ?case by simp
next
  case (Cons index rest)
  from Cons.prems obtain c where c: "calculate_cost_from_start s (tree s ! index) = Some c"
    by (cases "calculate_cost_from_start s (tree s ! index)") simp_all
  define potential where "potential = c + calculate_distance gx gy (tree s ! index)"
  define ev1 where "ev1 = ev\<lparr>parent := Some index,
                             cost := calculate_distance gx gy (tree s ! index)\<rparr>"
  let ?cand = "\<lambda>e xs. \<exists>j \<in> set xs. \<exists>c. calculate_cost_from_start s (tree s ! j) = Some c \<and>
        connectible s e (tree s ! j) \<and> c + calculate_distance gx gy (tree s ! j) < d"
  have split: "?cand ev (index # rest) \<longleftrightarrow>
      (connectible s ev (tree s ! index) \<and> potential < d) \<or> ?cand ev rest"
    using c by (auto simp: potential_def)
  show ?case
  proof (cases "less_bound potential mc \<and> connectible s ev (tree s ! index)")
    case True
    with Cons.prems c have "goal_scan s gx gy rest ev1 (Finite potential) = Some (ev', mc')"
      by (simp add: Let_def potential_def ev1_def)
    from Cons.IH [OF this] have ih: "bound_less mc' d \<longleftrightarrow> potential < d \<or> ?cand ev1 rest"
      by simp
    have pos: "vx ev1 = vx ev" "vy ev1 = vy ev" by (simp_all add: ev1_def)
    have "?cand ev1 rest \<longleftrightarrow> ?cand ev rest"
      by (simp add: connectible_position [OF pos])
    with ih split True less_bound_trans [of potential mc d] show ?thesis by blast
  next
    case False
    with Cons.prems c have "goal_scan s gx gy rest ev mc = Some (ev', mc')"
      by (auto simp: Let_def potential_def)
    from Cons.IH [OF this] have ih: "bound_less mc' d \<longleftrightarrow> bound_less mc d \<or> ?cand ev rest" .
    with split False not_less_bound [of potential mc d] show ?thesis by blast
  qed
qed

lemma goal_scan_total:
  assumes "parents_below (tree s)" and "\<forall>index \<in> set near. index < length (tree s)"
  shows "\<exists>r. goal_scan s gx gy near ev mc = Some r"
  using assms(2)
proof (induction near arbitrary: ev mc)
  case Nil
  then show ?case by simp
next
  case (Cons index rest)
  then have idx: "index < length (tree s)" and rest: "\<forall>i \<in> set rest. i < length (tree s)"
    by simp_all
  have "tree s = tree s @ []" by simp
  with cost_from_start_old [OF assms(1) idx] obtain c where
    "calculate_cost_from_start s (tree s ! index) = Some c"
    by blast
  with Cons.IH [OF rest] show ?case by (simp add: Let_def)
qed

lemma interpolate_loop_prepends:
  "\<exists>pre. interpolate_loop xi yi steps i x y poses = pre @ poses"
proof (induction xi yi steps i x y poses rule: interpolate_loop.induct)
  case (1 xi yi steps i x y poses)
  show ?case
  proof (cases "i < steps - 1")
    case False
    then show ?thesis by (subst interpolate_loop.simps) simp
  next
    case True
    from "1.IH" [OF True] obtain pre where
      "interpolate_loop xi yi steps (i + 1) (fadd x xi) (fadd y yi)
         (pose_at (fadd x xi) (fadd y yi) # poses)
         = pre @ pose_at (fadd x xi) (fadd y yi) # poses"
      by blast
    then have "interpolate_loop xi yi steps i x y poses = (pre @ [pose_at (fadd x xi) (fadd y yi)]) @ poses"
      using True by (subst interpolate_loop.simps) simp
    then show ?thesis by blast
  qed
qed

text \<open>The walk only inserts poses at the front, the pose of the vertex it starts at first.\<close>

lemma back_walk_shape:
  assumes "back_walk t cur poses = Some path"
  shows "\<exists>pre. path = pre @ (case cur of None \<Rightarrow> poses | Some v \<Rightarrow> pose_at (vx v) (vy v) # poses)"
proof -
  let ?P = "\<lambda>(t :: Vertex list) (cur :: Vertex option) (poses :: PoseStamped list) path.
    \<exists>pre. path = pre @ (case cur of None \<Rightarrow> poses | Some v \<Rightarrow> pose_at (vx v) (vy v) # poses)"
  have "?P t cur poses path"
  proof (rule back_walk.raw_induct [where P = ?P, OF _ assms])
    fix back_walk' :: "Vertex list \<Rightarrow> Vertex option \<Rightarrow> PoseStamped list \<Rightarrow> PoseStamped list option"
      and t :: "Vertex list" and cur :: "Vertex option" and poses path :: "PoseStamped list"
    assume IH: "\<And>t cur poses path. back_walk' t cur poses = Some path \<Longrightarrow> ?P t cur poses path"
      and body: "(case cur of
        None \<Rightarrow> Some poses
      | Some v \<Rightarrow>
          (let poses1 = pose_at (vx v) (vy v) # poses
           in case parent v of
                None \<Rightarrow> back_walk' t None poses1
              | Some p \<Rightarrow>
                  if p < length t then
                    (let par = t ! p;
                         steps = \<lceil>fmul (hypot (fsub (vx v) (vx par)) (fsub (vy v) (vy par))) 10\<rceil>;
                         x_increment = fdiv (fsub (vx par) (vx v)) (of_int steps);
                         y_increment = fdiv (fsub (vy par) (vy v)) (of_int steps)
                     in back_walk' t (Some par)
                          (interpolate_loop x_increment y_increment steps 0 (vx v) (vy v) poses1))
                  else None)) = Some path"
    show "?P t cur poses path"
    proof (cases cur)
      case None
      with body show ?thesis by simp
    next
      case (Some v)
      show ?thesis
      proof (cases "parent v")
        case None
        with body Some have "back_walk' t None (pose_at (vx v) (vy v) # poses) = Some path"
          by simp
        from IH [OF this] Some show ?thesis by simp
      next
        case (Some p)
        note par = this
        define prt where "prt = t ! p"
        define steps where
          "steps = \<lceil>fmul (hypot (fsub (vx v) (vx prt)) (fsub (vy v) (vy prt))) 10\<rceil>"
        have plen: "p < length t"
          using body \<open>cur = Some v\<close> par by (auto simp: Let_def split: if_splits)
        obtain pre1 where pre1: "interpolate_loop (fdiv (fsub (vx prt) (vx v)) (of_int steps))
            (fdiv (fsub (vy prt) (vy v)) (of_int steps)) steps 0 (vx v) (vy v)
            (pose_at (vx v) (vy v) # poses)
            = pre1 @ pose_at (vx v) (vy v) # poses"
          using interpolate_loop_prepends by blast
        have "back_walk' t (Some prt) (pre1 @ pose_at (vx v) (vy v) # poses) = Some path"
          using body \<open>cur = Some v\<close> par plen pre1
          by (simp add: Let_def prt_def steps_def)
        from IH [OF this] obtain pre where
          "path = pre @ pose_at (vx prt) (vy prt) # pre1 @ pose_at (vx v) (vy v) # poses"
          by auto
        then have "path = (pre @ pose_at (vx prt) (vy prt) # pre1) @ pose_at (vx v) (vy v) # poses"
          by simp
        with \<open>cur = Some v\<close> show ?thesis by auto
      qed
    qed
  qed
  then show ?thesis .
qed

text \<open>What the walk emits: in front of the pose of the vertex it starts at it puts the
  poses towards the root, the pose of the parent among them, and the first pose of all is
  that of a vertex without a parent, where the walk ends.\<close>

lemma back_walk_path:
  assumes "back_walk t cur poses = Some path"
  shows "case cur of
           None \<Rightarrow> path = poses
         | Some v \<Rightarrow>
             (\<exists>pre. path = pre @ pose_at (vx v) (vy v) # poses \<and>
                (case parent v of
                   None \<Rightarrow> pre = []
                 | Some p \<Rightarrow> p < length t \<and> pose_at (vx (t ! p)) (vy (t ! p)) \<in> set pre \<and>
                     (\<exists>r < length t. parent (t ! r) = None \<and>
                        hd pre = pose_at (vx (t ! r)) (vy (t ! r)))))"
proof -
  let ?P = "\<lambda>(t :: Vertex list) (cur :: Vertex option) (poses :: PoseStamped list) path.
    case cur of
      None \<Rightarrow> path = poses
    | Some v \<Rightarrow>
        (\<exists>pre. path = pre @ pose_at (vx v) (vy v) # poses \<and>
           (case parent v of
              None \<Rightarrow> pre = []
            | Some p \<Rightarrow> p < length t \<and> pose_at (vx (t ! p)) (vy (t ! p)) \<in> set pre \<and>
                (\<exists>r < length t. parent (t ! r) = None \<and>
                   hd pre = pose_at (vx (t ! r)) (vy (t ! r)))))"
  have "?P t cur poses path"
  proof (rule back_walk.raw_induct [where P = ?P, OF _ assms])
    fix back_walk' :: "Vertex list \<Rightarrow> Vertex option \<Rightarrow> PoseStamped list \<Rightarrow> PoseStamped list option"
      and t :: "Vertex list" and cur :: "Vertex option" and poses path :: "PoseStamped list"
    assume IH: "\<And>t cur poses path. back_walk' t cur poses = Some path \<Longrightarrow> ?P t cur poses path"
      and body: "(case cur of
        None \<Rightarrow> Some poses
      | Some v \<Rightarrow>
          (let poses1 = pose_at (vx v) (vy v) # poses
           in case parent v of
                None \<Rightarrow> back_walk' t None poses1
              | Some p \<Rightarrow>
                  if p < length t then
                    (let par = t ! p;
                         steps = \<lceil>fmul (hypot (fsub (vx v) (vx par)) (fsub (vy v) (vy par))) 10\<rceil>;
                         x_increment = fdiv (fsub (vx par) (vx v)) (of_int steps);
                         y_increment = fdiv (fsub (vy par) (vy v)) (of_int steps)
                     in back_walk' t (Some par)
                          (interpolate_loop x_increment y_increment steps 0 (vx v) (vy v) poses1))
                  else None)) = Some path"
    show "?P t cur poses path"
    proof (cases cur)
      case None
      with body show ?thesis by simp
    next
      case (Some v)
      show ?thesis
      proof (cases "parent v")
        case None
        with body Some have "back_walk' t None (pose_at (vx v) (vy v) # poses) = Some path"
          by simp
        from IH [OF this] have "path = pose_at (vx v) (vy v) # poses" by simp
        with Some None show ?thesis by simp
      next
        case (Some p)
        note par = this
        define prt where "prt = t ! p"
        define steps where
          "steps = \<lceil>fmul (hypot (fsub (vx v) (vx prt)) (fsub (vy v) (vy prt))) 10\<rceil>"
        have plen: "p < length t"
          using body \<open>cur = Some v\<close> par by (auto simp: Let_def split: if_splits)
        obtain pre1 where pre1: "interpolate_loop (fdiv (fsub (vx prt) (vx v)) (of_int steps))
            (fdiv (fsub (vy prt) (vy v)) (of_int steps)) steps 0 (vx v) (vy v)
            (pose_at (vx v) (vy v) # poses)
            = pre1 @ pose_at (vx v) (vy v) # poses"
          using interpolate_loop_prepends by blast
        have "back_walk' t (Some prt) (pre1 @ pose_at (vx v) (vy v) # poses) = Some path"
          using body \<open>cur = Some v\<close> par plen pre1
          by (simp add: Let_def prt_def steps_def)
        from IH [OF this] obtain pre' where
          path: "path = pre' @ pose_at (vx prt) (vy prt) # pre1 @ pose_at (vx v) (vy v) # poses"
          and up: "case parent prt of
                     None \<Rightarrow> pre' = []
                   | Some q \<Rightarrow> q < length t \<and> pose_at (vx (t ! q)) (vy (t ! q)) \<in> set pre' \<and>
                       (\<exists>r < length t. parent (t ! r) = None \<and>
                          hd pre' = pose_at (vx (t ! r)) (vy (t ! r)))"
          by auto
        define pre where "pre = pre' @ pose_at (vx prt) (vy prt) # pre1"
        have p1: "path = pre @ pose_at (vx v) (vy v) # poses"
          by (simp add: path pre_def)
        have p2: "pose_at (vx (t ! p)) (vy (t ! p)) \<in> set pre"
          by (simp add: pre_def prt_def)
        have p3: "\<exists>r < length t. parent (t ! r) = None \<and> hd pre = pose_at (vx (t ! r)) (vy (t ! r))"
        proof (cases "parent prt")
          case None
          with up have "pre' = []" by simp
          then have "hd pre = pose_at (vx (t ! p)) (vy (t ! p))"
            by (simp add: pre_def prt_def)
          with None plen show ?thesis unfolding prt_def by blast
        next
          case (Some q)
          with up have mem: "pose_at (vx (t ! q)) (vy (t ! q)) \<in> set pre'"
            and ex: "\<exists>r < length t. parent (t ! r) = None \<and>
                          hd pre' = pose_at (vx (t ! r)) (vy (t ! r))"
            by simp_all
          from mem have ne: "pre' \<noteq> []" by auto
          from ex obtain r where r: "r < length t" "parent (t ! r) = None"
            "hd pre' = pose_at (vx (t ! r)) (vy (t ! r))"
            by blast
          from ne have "hd pre = hd pre'" by (simp add: pre_def)
          with r show ?thesis by auto
        qed
        from p1 p2 p3 plen par \<open>cur = Some v\<close> show ?thesis by auto
      qed
    qed
  qed
  then show ?thesis .
qed

lemma back_walk_None: "back_walk t None poses = Some poses"
  by (subst back_walk.simps) simp

text \<open>On a tree whose parent links point to earlier vertices the walk returns.\<close>

lemma back_walk_total_index:
  assumes "parents_below t" and "i < length t"
  shows "\<exists>path. back_walk t (Some (t ! i)) poses = Some path"
  using assms(2)
proof (induction i arbitrary: poses rule: less_induct)
  case (less i)
  show ?case
  proof (cases "parent (t ! i)")
    case None
    then show ?thesis
      by (subst back_walk.simps) (simp add: Let_def back_walk_None)
  next
    case (Some p)
    with assms(1) less.prems have p: "p < i" by (simp add: parents_below_def)
    with less.prems have plen: "p < length t" by simp
    from less.IH [OF p plen] Some plen show ?thesis
      by (subst back_walk.simps) (simp add: Let_def)
  qed
qed

lemma back_walk_total:
  assumes "parents_below t" and "parent v = Some p" and "p < length t"
  shows "\<exists>path. back_walk t (Some v) poses = Some path"
  using back_walk_total_index [OF assms(1,3)] assms(2,3)
  by (subst back_walk.simps) (simp add: Let_def)

text \<open>What the goal connector has done when it returns: some vertex of the near set passed
  the connectivity check with a total cost below the ceiling, one vertex at the position of
  the goal vertex was appended to the tree, with that vertex as parent, and the poses of
  the walk were put in front of the path, the pose of the goal vertex last.\<close>

lemma goal_loop_result:
  assumes "goal_loop s gx gy near ev poses = Some (s', path)"
  shows "(\<exists>v p pre. s' = s\<lparr>tree := tree s @ [v]\<rparr> \<and> vx v = vx ev \<and> vy v = vy ev \<and>
            parent v = Some p \<and> p \<in> set near \<and>
            cost v = calculate_distance gx gy (tree s ! p) \<and>
            path = pre @ pose_at (vx ev) (vy ev) # poses) \<and>
         (\<exists>index \<in> set near. \<exists>c. calculate_cost_from_start s (tree s ! index) = Some c \<and>
            connectible s ev (tree s ! index) \<and>
            c + calculate_distance gx gy (tree s ! index) < 10000)"
proof -
  let ?P = "\<lambda>(s :: RRTStar) (gx :: real) (gy :: real) (near :: nat list) (ev :: Vertex)
      (poses :: PoseStamped list) (r :: RRTStar \<times> PoseStamped list).
    (\<exists>v p pre. fst r = s\<lparr>tree := tree s @ [v]\<rparr> \<and> vx v = vx ev \<and> vy v = vy ev \<and>
            parent v = Some p \<and> p \<in> set near \<and>
            cost v = calculate_distance gx gy (tree s ! p) \<and>
            snd r = pre @ pose_at (vx ev) (vy ev) # poses) \<and>
         (\<exists>index \<in> set near. \<exists>c. calculate_cost_from_start s (tree s ! index) = Some c \<and>
            connectible s ev (tree s ! index) \<and>
            c + calculate_distance gx gy (tree s ! index) < 10000)"
  have "?P s gx gy near ev poses (s', path)"
  proof (rule goal_loop.raw_induct [where P = ?P, OF _ assms])
    fix goal_loop' :: "RRTStar \<Rightarrow> real \<Rightarrow> real \<Rightarrow> nat list \<Rightarrow> Vertex \<Rightarrow> PoseStamped list
         \<Rightarrow> (RRTStar \<times> PoseStamped list) option"
      and s :: RRTStar and gx gy :: real and near :: "nat list" and ev :: Vertex
      and poses :: "PoseStamped list" and r :: "RRTStar \<times> PoseStamped list"
    assume IH: "\<And>s gx gy near ev poses r. goal_loop' s gx gy near ev poses = Some r
                  \<Longrightarrow> ?P s gx gy near ev poses r"
      and body: "(case goal_scan s gx gy near ev Infinity of
        None \<Rightarrow> None
      | Some (end_vertex', min_cost) \<Rightarrow>
          if bound_less min_cost 10000 then
            (let s' = s\<lparr>tree := tree s @ [end_vertex']\<rparr>
             in case back_walk (tree s') (Some end_vertex') poses of
                  None \<Rightarrow> None
                | Some poses' \<Rightarrow> Some (s', poses'))
          else goal_loop' s gx gy near end_vertex' poses) = Some r"
    from body obtain ev' mc where scan: "goal_scan s gx gy near ev Infinity = Some (ev', mc)"
      by (cases "goal_scan s gx gy near ev Infinity") auto
    note shape = goal_scan_shape [OF scan]
    from shape have pos: "vx ev' = vx ev" "vy ev' = vy ev" by simp_all
    show "?P s gx gy near ev poses r"
    proof (cases "bound_less mc 10000")
      case True
      then have "mc \<noteq> Infinity" by auto
      with shape obtain index where
        idx: "index \<in> set near" "parent ev' = Some index"
             "cost ev' = calculate_distance gx gy (tree s ! index)"
        by auto
      from body scan True obtain poses' where
        bw: "back_walk (tree s @ [ev']) (Some ev') poses = Some poses'"
        and r: "r = (s\<lparr>tree := tree s @ [ev']\<rparr>, poses')"
        by (cases "back_walk (tree s @ [ev']) (Some ev') poses") (auto simp: Let_def)
      from back_walk_shape [OF bw] obtain pre where
        "poses' = pre @ pose_at (vx ev') (vy ev') # poses"
        by auto
      with r idx pos have "\<exists>v p pre. fst r = s\<lparr>tree := tree s @ [v]\<rparr> \<and> vx v = vx ev \<and>
            vy v = vy ev \<and> parent v = Some p \<and> p \<in> set near \<and>
            cost v = calculate_distance gx gy (tree s ! p) \<and>
            snd r = pre @ pose_at (vx ev) (vy ev) # poses"
        by auto
      moreover from goal_scan_min [OF scan, of 10000] True
      have "\<exists>index \<in> set near. \<exists>c. calculate_cost_from_start s (tree s ! index) = Some c \<and>
            connectible s ev (tree s ! index) \<and>
            c + calculate_distance gx gy (tree s ! index) < 10000"
        by simp
      ultimately show ?thesis by blast
    next
      case False
      with body scan have "goal_loop' s gx gy near ev' poses = Some r" by simp
      from IH [OF this] show ?thesis
        by (simp add: pos connectible_position [OF pos])
    qed
  qed
  then show ?thesis by simp
qed

text \<open>When some vertex of the near set is an acceptable candidate, the first scan ends
  below the ceiling with the minimum over the verified candidates, and the goal connector
  returns with the goal vertex of that scan appended, its parent a verified candidate of
  that least cost, and with the path of the walk from the goal vertex to the root.\<close>

lemma goal_loop_accepts:
  assumes a: "\<exists>index \<in> set near. \<exists>c. calculate_cost_from_start s (tree s ! index) = Some c \<and>
        connectible s ev (tree s ! index) \<and>
        c + calculate_distance gx gy (tree s ! index) < 10000"
    and pb: "parents_below (tree s)"
    and nb: "\<forall>index \<in> set near. index < length (tree s)"
  shows "\<exists>ev' m path pre index c.
          goal_scan s gx gy near ev Infinity = Some (ev', Finite m) \<and> m < 10000 \<and>
          (\<forall>index \<in> set near. \<forall>c. calculate_cost_from_start s (tree s ! index) = Some c \<and>
               connectible s ev (tree s ! index)
             \<longrightarrow> m \<le> c + calculate_distance gx gy (tree s ! index)) \<and>
          goal_loop s gx gy near ev poses = Some (s\<lparr>tree := tree s @ [ev']\<rparr>, path) \<and>
          vx ev' = vx ev \<and> vy ev' = vy ev \<and> index \<in> set near \<and> parent ev' = Some index \<and>
          cost ev' = calculate_distance gx gy (tree s ! index) \<and>
          calculate_cost_from_start s (tree s ! index) = Some c \<and>
          m = c + calculate_distance gx gy (tree s ! index) \<and>
          connectible s ev (tree s ! index) \<and>
          path = pre @ pose_at (vx ev) (vy ev) # poses \<and>
          pose_at (vx (tree s ! index)) (vy (tree s ! index)) \<in> set pre \<and>
          (\<exists>r < length (tree s). parent (tree s ! r) = None \<and>
             hd path = pose_at (vx (tree s ! r)) (vy (tree s ! r)))"
proof -
  from goal_scan_total [OF pb nb] obtain ev' mc where
    scan: "goal_scan s gx gy near ev Infinity = Some (ev', mc)"
    by fastforce
  from goal_scan_min [OF scan, of 10000] a have acc: "bound_less mc 10000" by simp
  then obtain m where m: "mc = Finite m" "m < 10000" by (cases mc) simp_all
  from goal_scan_shape [OF scan] m obtain index c where
    idx: "index \<in> set near" "parent ev' = Some index"
      "cost ev' = calculate_distance gx gy (tree s ! index)"
      "calculate_cost_from_start s (tree s ! index) = Some c"
      "m = c + calculate_distance gx gy (tree s ! index)"
      "connectible s ev (tree s ! index)"
    and pos: "vx ev' = vx ev" "vy ev' = vy ev"
    by auto
  with nb have ilen: "index < length (tree s)" by simp
  have "parents_below (tree s @ [ev'])"
    by (rule parents_below_append [OF pb]) (simp add: idx ilen)
  moreover have "index < length (tree s @ [ev'])" using ilen by simp
  ultimately obtain path where
    bw: "back_walk (tree s @ [ev']) (Some ev') poses = Some path"
    using back_walk_total [OF _ idx(2)] by blast
  have loop: "goal_loop s gx gy near ev poses = Some (s\<lparr>tree := tree s @ [ev']\<rparr>, path)"
    using scan acc bw by (subst goal_loop.simps) (simp add: Let_def)
  have "\<not> bound_less mc m" using m by simp
  with goal_scan_min [OF scan, of m]
  have least: "\<forall>index \<in> set near. \<forall>c. calculate_cost_from_start s (tree s ! index) = Some c \<and>
               connectible s ev (tree s ! index)
             \<longrightarrow> m \<le> c + calculate_distance gx gy (tree s ! index)"
    by (auto simp: not_less)
  from back_walk_path [OF bw] idx(2) obtain pre r where
    path: "path = pre @ pose_at (vx ev') (vy ev') # poses"
    and mem: "pose_at (vx ((tree s @ [ev']) ! index)) (vy ((tree s @ [ev']) ! index)) \<in> set pre"
    and r: "r < length (tree s @ [ev'])" "parent ((tree s @ [ev']) ! r) = None"
      "hd pre = pose_at (vx ((tree s @ [ev']) ! r)) (vy ((tree s @ [ev']) ! r))"
    by auto
  have "r \<noteq> length (tree s)"
  proof
    assume "r = length (tree s)"
    with r(2) idx(2) show False by simp
  qed
  with r(1) have rlen: "r < length (tree s)" by simp
  from mem have ne: "pre \<noteq> []" by auto
  have hd: "hd path = pose_at (vx (tree s ! r)) (vy (tree s ! r))"
    using ne r(3) rlen by (simp add: path nth_append)
  have root: "parent (tree s ! r) = None"
    using r(2) rlen by (simp add: nth_append)
  have mem': "pose_at (vx (tree s ! index)) (vy (tree s ! index)) \<in> set pre"
    using mem ilen by (simp add: nth_append)
  have path': "path = pre @ pose_at (vx ev) (vy ev) # poses"
    using path pos by simp
  from scan m loop least idx pos path' mem' rlen root hd show ?thesis by blast
qed

text \<open>
  Claim C2.  Call a vertex of the near set an acceptable candidate when it passes the
  connectivity check from the goal vertex and its total cost plus its distance to the goal
  is below the ceiling 10000.  If there is an acceptable candidate (and the parent links of
  the tree point to earlier vertices, as they do after growth), the goal connector returns
  after its first scan: the scan ends with the minimum \<open>m < 10000\<close> over the verified
  candidates; the goal vertex is appended to the tree, at the goal vertex's position and
  with a verified candidate of that least cost as its parent; and the path is emitted: in
  front of the poses the path held before, the walk from the goal vertex to the root has
  put the pose of the goal vertex and, before it, the poses towards the root, among them
  the pose of the parent, so that the path begins with the pose of a vertex that has no
  parent.  If there is no acceptable candidate, the goal connector never returns: the
  model renders the loop that does not end by \<open>None\<close>.
\<close>

theorem goal_connector_stops_or_diverges:
  "((\<exists>index \<in> set near. \<exists>c. calculate_cost_from_start s (tree s ! index) = Some c \<and>
        connectible s ev (tree s ! index) \<and>
        c + calculate_distance gx gy (tree s ! index) < 10000) \<and>
     parents_below (tree s) \<and> (\<forall>index \<in> set near. index < length (tree s))
    \<longrightarrow> (\<exists>ev' m path pre index c.
          goal_scan s gx gy near ev Infinity = Some (ev', Finite m) \<and> m < 10000 \<and>
          (\<forall>index \<in> set near. \<forall>c. calculate_cost_from_start s (tree s ! index) = Some c \<and>
               connectible s ev (tree s ! index)
             \<longrightarrow> m \<le> c + calculate_distance gx gy (tree s ! index)) \<and>
          goal_loop s gx gy near ev poses = Some (s\<lparr>tree := tree s @ [ev']\<rparr>, path) \<and>
          vx ev' = vx ev \<and> vy ev' = vy ev \<and> index \<in> set near \<and> parent ev' = Some index \<and>
          cost ev' = calculate_distance gx gy (tree s ! index) \<and>
          calculate_cost_from_start s (tree s ! index) = Some c \<and>
          m = c + calculate_distance gx gy (tree s ! index) \<and>
          connectible s ev (tree s ! index) \<and>
          path = pre @ pose_at (vx ev) (vy ev) # poses \<and>
          pose_at (vx (tree s ! index)) (vy (tree s ! index)) \<in> set pre \<and>
          (\<exists>r < length (tree s). parent (tree s ! r) = None \<and>
             hd path = pose_at (vx (tree s ! r)) (vy (tree s ! r)))))
   \<and> (\<not> (\<exists>index \<in> set near. \<exists>c. calculate_cost_from_start s (tree s ! index) = Some c \<and>
        connectible s ev (tree s ! index) \<and>
        c + calculate_distance gx gy (tree s ! index) < 10000)
    \<longrightarrow> goal_loop s gx gy near ev poses = None)"
proof (intro conjI impI)
  assume "\<not> (\<exists>index \<in> set near. \<exists>c. calculate_cost_from_start s (tree s ! index) = Some c \<and>
        connectible s ev (tree s ! index) \<and>
        c + calculate_distance gx gy (tree s ! index) < 10000)"
  then show "goal_loop s gx gy near ev poses = None"
    using goal_loop_result [of s gx gy near ev poses]
    by (cases "goal_loop s gx gy near ev poses") auto
next
  assume a: "(\<exists>index \<in> set near. \<exists>c. calculate_cost_from_start s (tree s ! index) = Some c \<and>
        connectible s ev (tree s ! index) \<and>
        c + calculate_distance gx gy (tree s ! index) < 10000) \<and>
     parents_below (tree s) \<and> (\<forall>index \<in> set near. index < length (tree s))"
  then show "\<exists>ev' m path pre index c.
          goal_scan s gx gy near ev Infinity = Some (ev', Finite m) \<and> m < 10000 \<and>
          (\<forall>index \<in> set near. \<forall>c. calculate_cost_from_start s (tree s ! index) = Some c \<and>
               connectible s ev (tree s ! index)
             \<longrightarrow> m \<le> c + calculate_distance gx gy (tree s ! index)) \<and>
          goal_loop s gx gy near ev poses = Some (s\<lparr>tree := tree s @ [ev']\<rparr>, path) \<and>
          vx ev' = vx ev \<and> vy ev' = vy ev \<and> index \<in> set near \<and> parent ev' = Some index \<and>
          cost ev' = calculate_distance gx gy (tree s ! index) \<and>
          calculate_cost_from_start s (tree s ! index) = Some c \<and>
          m = c + calculate_distance gx gy (tree s ! index) \<and>
          connectible s ev (tree s ! index) \<and>
          path = pre @ pose_at (vx ev) (vy ev) # poses \<and>
          pose_at (vx (tree s ! index)) (vy (tree s ! index)) \<in> set pre \<and>
          (\<exists>r < length (tree s). parent (tree s ! r) = None \<and>
             hd path = pose_at (vx (tree s ! r)) (vy (tree s ! r)))"
    using goal_loop_accepts [of near s ev gx gy poses] by blast
qed

section \<open>Properties of a whole planning call\<close>

lemma reaches_root_mono: "reaches_root t n i \<Longrightarrow> n \<le> m \<Longrightarrow> reaches_root t m i"
proof (induction n arbitrary: m i)
  case 0
  then show ?case by (auto split: option.splits)
next
  case (Suc n)
  then obtain m' where m: "m = Suc m'" "n \<le> m'" by (cases m) simp_all
  show ?case
  proof (cases "parent (t ! i)")
    case None
    with Suc.prems(1) show ?thesis by auto
  next
    case (Some p)
    with Suc.prems(1) have "reaches_root t n p" "i < length t" by simp_all
    with Suc.IH [OF _ m(2)] Some m(1) show ?thesis by simp
  qed
qed

lemma tree_ok_reaches_root:
  assumes "tree_ok sx sy t" and "i < length t"
  shows "reaches_root t i i"
  using assms(2)
proof (induction i rule: less_induct)
  case (less i)
  show ?case
  proof (cases "i = 0")
    case True
    with assms(1) less.prems show ?thesis by (simp add: tree_ok_def)
  next
    case False
    with assms(1) less.prems obtain p where p: "p < i" "parent (t ! i) = Some p"
      by (auto simp: tree_ok_def)
    with less.prems have "p < length t" by simp
    from less.IH [OF p(1) this] have "reaches_root t p p" .
    moreover obtain j where j: "i = Suc j" using False by (cases i) simp_all
    ultimately have "reaches_root t j p"
      using p(1) by (intro reaches_root_mono [of t p p j]) simp_all
    with p(2) j less.prems show ?thesis by simp
  qed
qed

text \<open>The state and the raw path of a planning call that returns, for a start and a goal
  in the planner's frame.\<close>

lemma createPlan_raw_result:
  assumes "createPlan_raw s start goal stream = Some (s', raw)"
    and "frame_id start = global_frame s" and "frame_id goal = global_frame s"
  shows "tree_ok (position_x start) (position_y start) (tree s') \<and>
     (\<exists>pre. raw = pre @ [pose_at (position_x goal) (position_y goal),
          \<lparr>frame_id = [], position_x = position_x goal, position_y = position_y goal,
            position_z = 0\<rparr>]) \<and>
     int (length (tree s')) = max 1 (max_iterations s) + 1 \<and>
     vx (last (tree s')) = position_x goal \<and> vy (last (tree s')) = position_y goal \<and>
     ball_radius_constant s' = ball_radius_constant (calculateBallRadiusConstant s)"
proof -
  define s1 where "s1 = calculateBallRadiusConstant s"
  define rnd where "rnd = \<lparr>x_dis = (getOriginX (costmap s1),
        getOriginX (costmap s1) + real (getSizeInCellsX (costmap s1)) * getResolution (costmap s1)),
      y_dis = (getOriginY (costmap s1),
        getOriginY (costmap s1) + real (getSizeInCellsY (costmap s1)) * getResolution (costmap s1)),
      goal_x_dis = (position_x goal - 5, position_x goal + 5),
      goal_y_dis = (position_y goal - 5, position_y goal + 5),
      gen = stream\<rparr>"
  define s2 where "s2 = s1\<lparr>tree := [(mk_Vertex (position_x start) (position_y start))\<lparr>cost := 0\<rparr>]\<rparr>"
  define gp where "gp = \<lparr>frame_id = [], position_x = position_x goal,
      position_y = position_y goal, position_z = 0\<rparr>"
  from assms obtain s3 where g: "grow rnd 1 0 s2 = Some s3"
    by (cases "grow rnd 1 0 s2")
       (simp_all add: createPlan_raw_def Let_def s1_def [symmetric] rnd_def [symmetric]
          s2_def [symmetric])
  define near where "near = findVerticesInsideCircle s3 (position_x goal) (position_y goal)
      (fp_times 2 (calculateBallRadius s3 (int (length (tree s3))) 2 2))"
  have gl: "goal_loop s3 (position_x goal) (position_y goal) near
      (mk_Vertex (position_x goal) (position_y goal)) [gp] = Some (s', raw)"
    using assms g
    by (simp add: createPlan_raw_def Let_def s1_def [symmetric] rnd_def [symmetric]
          s2_def [symmetric] near_def gp_def)
  have mi: "max_iterations s2 = max_iterations s"
    by (simp add: s2_def s1_def calculateBallRadiusConstant_def Let_def)
  have brc: "ball_radius_constant s2 = ball_radius_constant (calculateBallRadiusConstant s)"
    by (simp add: s2_def s1_def)
  have ok2: "tree_ok (position_x start) (position_y start) (tree s2)"
    by (simp add: s2_def tree_ok_initial)
  from grow_result [OF g] obtain ext where
    e: "s3 = s2\<lparr>tree := tree s2 @ ext\<rparr>" "int (length ext) = max 0 (max_iterations s2 - 1)"
       "tree_ok (position_x start) (position_y start) (tree s3)"
    using ok2 by blast
  have len3: "int (length (tree s3)) = max 1 (max_iterations s)"
    using e(1,2) mi by (simp add: s2_def)
  from goal_loop_result [OF gl] obtain v p pre where
    r: "s' = s3\<lparr>tree := tree s3 @ [v]\<rparr>"
       "vx v = vx (mk_Vertex (position_x goal) (position_y goal))"
       "vy v = vy (mk_Vertex (position_x goal) (position_y goal))"
       "parent v = Some p" "p \<in> set near"
       "cost v = calculate_distance (position_x goal) (position_y goal) (tree s3 ! p)"
       "raw = pre @ pose_at (vx (mk_Vertex (position_x goal) (position_y goal)))
                (vy (mk_Vertex (position_x goal) (position_y goal))) # [gp]"
    by blast
  from r(5) have plen: "p < length (tree s3)"
    unfolding near_def by (rule findVerticesInsideCircle_bound)
  have "0 \<le> cost v" using r(6) by (simp add: calculate_distance_nonneg)
  from tree_ok_append [OF e(3) this r(4) plen] r(1)
  have "tree_ok (position_x start) (position_y start) (tree s')" by simp
  moreover have "raw = pre @ [pose_at (position_x goal) (position_y goal), gp]"
    using r(7) by (simp add: mk_Vertex_def)
  moreover have "int (length (tree s')) = max 1 (max_iterations s) + 1"
    using r(1) len3 by simp
  moreover have "vx (last (tree s')) = position_x goal" "vy (last (tree s')) = position_y goal"
    using r(1,2,3) by (simp_all add: mk_Vertex_def)
  moreover have "ball_radius_constant s' = ball_radius_constant (calculateBallRadiusConstant s)"
    using r(1) e(1) brc by simp
  ultimately show ?thesis unfolding gp_def by blast
qed

text \<open>
  Claim C10.  When \<^verbatim>\<open>createPlan\<close> reaches \<^verbatim>\<open>smoothPath\<close> (the start and the goal are in the
  planner's frame and the goal connector has returned), the raw path ends with two poses at
  the goal position: the pose of the goal vertex, which is the first pose the back-walk
  emits, and behind it the pose that was put into the path before tree growth.  Everything
  the back-walk emits stands in front of that initial pose.
\<close>

theorem raw_path_ends_with_goal_twice:
  assumes "createPlan_raw s start goal stream = Some (s', raw)"
    and "frame_id start = global_frame s" and "frame_id goal = global_frame s"
  shows "\<exists>pre. raw = pre @ [pose_at (position_x goal) (position_y goal),
          \<lparr>frame_id = [], position_x = position_x goal, position_y = position_y goal,
            position_z = 0\<rparr>]"
  using createPlan_raw_result [OF assms] by blast

text \<open>
  Claim C6.  The tree that \<^verbatim>\<open>createPlan\<close> starts with satisfies the invariant: its first
  element is the start vertex with edge cost 0 and no parent, every other vertex has a
  non-negative edge cost and a parent inserted before it.  A round of the growth loop, the
  whole growth loop and the goal connector keep the invariant and only append to the tree
  (the vertices already present stay as they are), so the tree of a planning call that
  returns satisfies it.  Under the invariant the parent chain of every vertex ends at the
  root after at most as many links as the tree has vertices.
\<close>

theorem tree_invariant_preserved:
  "tree_ok sx sy [(mk_Vertex sx sy)\<lparr>cost := 0\<rparr>]
   \<and> (tree_ok sx sy (tree s) \<and> insert_sample s rand_x rand_y = Some (inserted, s1)
      \<longrightarrow> tree_ok sx sy (tree s1) \<and> (\<exists>ext. tree s1 = tree s @ ext))
   \<and> (tree_ok sx sy (tree s) \<and> grow rnd i k s = Some s2
      \<longrightarrow> tree_ok sx sy (tree s2) \<and> (\<exists>ext. tree s2 = tree s @ ext))
   \<and> (tree_ok sx sy (tree s) \<and> (\<forall>index \<in> set near. index < length (tree s)) \<and>
        goal_loop s gx gy near ev poses = Some (s3, path)
      \<longrightarrow> tree_ok sx sy (tree s3) \<and> (\<exists>ext. tree s3 = tree s @ ext))
   \<and> (createPlan_raw s start goal stream = Some (s4, raw) \<and>
        frame_id start = global_frame s \<and> frame_id goal = global_frame s
      \<longrightarrow> tree_ok (position_x start) (position_y start) (tree s4))
   \<and> (tree_ok sx sy t
      \<longrightarrow> hd t = \<lparr>vx = sx, vy = sy, cost = 0, parent = None\<rparr> \<and>
          (\<forall>j < length t. 0 < j \<longrightarrow> 0 \<le> cost (t ! j)) \<and>
          (\<forall>j < length t. reaches_root t (length t) j))"
proof -
  have a: "tree_ok sx sy [(mk_Vertex sx sy)\<lparr>cost := 0\<rparr>]"
    by (rule tree_ok_initial)
  have b: "tree_ok sx sy (tree s1) \<and> (\<exists>ext. tree s1 = tree s @ ext)"
    if "tree_ok sx sy (tree s)" "insert_sample s rand_x rand_y = Some (inserted, s1)"
  proof -
    from insert_sample_shape [OF that(2)] have "\<exists>ext. tree s1 = tree s @ ext"
      by (cases inserted) auto
    with insert_sample_tree_ok [OF that(2,1)] show ?thesis by simp
  qed
  have c: "tree_ok sx sy (tree s2) \<and> (\<exists>ext. tree s2 = tree s @ ext)"
    if "tree_ok sx sy (tree s)" "grow rnd i k s = Some s2"
    using grow_result [OF that(2)] that(1) by auto
  have d: "tree_ok sx sy (tree s3) \<and> (\<exists>ext. tree s3 = tree s @ ext)"
    if "tree_ok sx sy (tree s)" "\<forall>index \<in> set near. index < length (tree s)"
      "goal_loop s gx gy near ev poses = Some (s3, path)"
  proof -
    from goal_loop_result [OF that(3)] obtain v p where
      v: "s3 = s\<lparr>tree := tree s @ [v]\<rparr>" "parent v = Some p" "p \<in> set near"
         "cost v = calculate_distance gx gy (tree s ! p)"
      by blast
    have "0 \<le> cost v" using v(4) by (simp add: calculate_distance_nonneg)
    moreover have "p < length (tree s)" using v(3) that(2) by simp
    ultimately have "tree_ok sx sy (tree s @ [v])"
      using tree_ok_append [OF that(1) _ v(2)] by blast
    with v(1) show ?thesis by simp
  qed
  have e: "tree_ok (position_x start) (position_y start) (tree s4)"
    if "createPlan_raw s start goal stream = Some (s4, raw)"
      "frame_id start = global_frame s" "frame_id goal = global_frame s"
    using createPlan_raw_result [OF that] by blast
  have f: "hd t = \<lparr>vx = sx, vy = sy, cost = 0, parent = None\<rparr> \<and>
          (\<forall>j < length t. 0 < j \<longrightarrow> 0 \<le> cost (t ! j)) \<and>
          (\<forall>j < length t. reaches_root t (length t) j)"
    if ok: "tree_ok sx sy t"
  proof -
    from ok have "t \<noteq> []" "t ! 0 = \<lparr>vx = sx, vy = sy, cost = 0, parent = None\<rparr>"
      by (simp_all add: tree_ok_def)
    then have "hd t = \<lparr>vx = sx, vy = sy, cost = 0, parent = None\<rparr>"
      by (simp add: hd_conv_nth)
    moreover from ok have "\<forall>j < length t. 0 < j \<longrightarrow> 0 \<le> cost (t ! j)"
      by (simp add: tree_ok_def)
    moreover have "\<forall>j < length t. reaches_root t (length t) j"
    proof (intro allI impI)
      fix j assume j: "j < length t"
      from tree_ok_reaches_root [OF ok j] j show "reaches_root t (length t) j"
        by (intro reaches_root_mono [of t j j "length t"]) simp_all
    qed
    ultimately show ?thesis by blast
  qed
  from a b c d e f show ?thesis by blast
qed

section \<open>The example planning call, evaluated\<close>


lemma calculateBallRadiusConstant_fields [simp]:
  "costmap (calculateBallRadiusConstant s) = costmap s"
  "global_frame (calculateBallRadiusConstant s) = global_frame s"
  "max_iterations (calculateBallRadiusConstant s) = max_iterations s"
  "interpolation_resolution (calculateBallRadiusConstant s) = interpolation_resolution s"
  "tree (calculateBallRadiusConstant s) = tree s"
  by (simp_all add: calculateBallRadiusConstant_def Let_def)

lemma example_seeded_fields:
  "costmap example_seeded = corridor"
  "interpolation_resolution example_seeded = 1"
  "max_iterations example_seeded = 2"
  "tree example_seeded = [example_root]"
  by (simp_all add: example_seeded_def example_planner_def planner_on_def)

lemma example_grown_fields:
  "costmap example_grown = corridor"
  "interpolation_resolution example_grown = 1"
  "max_iterations example_grown = 2"
  "tree example_grown = [example_root, example_vertex]"
  by (simp_all add: example_grown_def example_planner_def planner_on_def)

lemma calculate_distance_same_y:
  "vy v = py \<Longrightarrow> calculate_distance px py v = \<bar>vx v - px\<bar>"
  by (simp add: calculate_distance_def)

lemma corridor_free:
  "sample_free (corridor) x (1/2) \<longleftrightarrow> 0 \<le> x \<and> x < 8 \<and> \<not> (6 \<le> x \<and> x < 7)"
proof -
  have "nat \<lfloor>x\<rfloor> = 6 \<longleftrightarrow> 6 \<le> x \<and> x < 7" if "0 \<le> x"
    using that by (auto simp: nat_eq_iff floor_eq_iff)
  moreover have "nat \<lfloor>x\<rfloor> < 8 \<longleftrightarrow> x < 8" if "0 \<le> x"
    using that by (auto simp: nat_less_iff floor_less_iff)
  ultimately show ?thesis
    by (auto simp: sample_free_def corridor_def unit_grid_def one_obstacle_def FREE_SPACE_def)
qed

lemma connectible_same_position:
  "vx a = vx b \<Longrightarrow> vy a = vy b \<Longrightarrow> connectible s a b"
  by (simp add: connectible_def fsub_self hypot_zero_zero fdiv_zero_left)

text \<open>Segments of the examples: they start at \<open>x = 0.5\<close>, run along the line \<open>y = 0.5\<close> and
  have an integral length, and the interpolation resolution is 1.  All numbers that occur
  are representable, so that the samples are the points \<open>0.5 + k\<close>.\<close>

lemma sample_points_unit:
  "j + m < 2 ^ 52 \<Longrightarrow>
     sample_points 1 0 m (1/2 + real j) (1/2) = map (\<lambda>k. (1/2 + real k, 1/2)) [j ..< j + m]"
proof (induction m arbitrary: j)
  case 0
  then show ?case by simp
next
  case (Suc m)
  have a: "fadd (1/2 + real j) 1 = 1/2 + real (Suc j)"
    using rnd64_half_odd [of "Suc j"] Suc.prems by (simp add: fadd_def add.commute add.left_commute)
  have b: "fadd (1/2) 0 = 1/2" by (simp add: fadd_def rnd64_half)
  have "Suc j + m < 2 ^ 52" using Suc.prems by simp
  from Suc.IH [OF this] show ?case
    by (simp add: a b upt_conv_Cons del: upt_Suc)
qed

lemma connectible_unit_steps:
  assumes "interpolation_resolution s = 1" and "vx a = 1/2" and "vy a = 1/2" and "vy b = 1/2"
    and "vx b = 1/2 + real n" and "n < 2 ^ 52"
  shows "connectible s a b \<longleftrightarrow> (\<forall>k < n. sample_free (costmap s) (1/2 + real k) (1/2))"
proof (cases "n = 0")
  case True
  with assms show ?thesis by (simp add: connectible_same_position)
next
  case False
  have r: "rnd64 (real n) = real n"
    using assms(6) by (intro rnd64_of_nat) simp
  have dx: "fsub (vx b) (vx a) = real n"
    by (simp add: fsub_def assms(2,5) r)
  have dy: "fsub (vy b) (vy a) = 0"
    by (simp add: assms(3,4) fsub_self)
  have h: "hypot (real n) 0 = real n"
    by (simp add: hypot_zero_right r)
  have st: "\<lceil>fdiv (hypot (real n) 0) (interpolation_resolution s)\<rceil> = int n"
    by (simp add: h assms(1) fdiv_def r)
  have xi: "fdiv (real n) (real n) = 1"
    using False by (simp add: fdiv_def rnd64_1)
  have yi: "fdiv 0 (real n) = 0" by (rule fdiv_zero_left)
  have "connectible_samples s a b = sample_points 1 0 n (1/2 + real 0) (1/2)"
    using connectible_samples_eval(2) [OF dx dy st xi yi] by (simp add: assms(2,3))
  also have "\<dots> = map (\<lambda>k. (1/2 + real k, 1/2)) [0 ..< 0 + n]"
    using assms(6) by (intro sample_points_unit) simp
  finally show ?thesis
    unfolding connectible_iff_samples by auto
qed

lemma example_connectible_far:
  assumes "costmap s = corridor" "interpolation_resolution s = 1"
    "vx a = 1/2" "vy a = 1/2" "vx b = 15/2" "vy b = 1/2"
  shows "\<not> connectible s a b"
proof -
  have "vx b = 1/2 + real 7" using assms by simp
  from connectible_unit_steps [OF assms(2,3,4,6) this] assms(1)
  have "connectible s a b \<longleftrightarrow>
      (\<forall>k < 7. sample_free (corridor) (1/2 + real k) (1/2))"
    by simp
  moreover have "\<not> sample_free (corridor) (1/2 + real 6) (1/2)"
    by (simp add: corridor_free)
  moreover have "(6 :: nat) < 7" by simp
  ultimately show ?thesis by blast
qed

lemma example_connectible_near:
  assumes "costmap s = corridor" "interpolation_resolution s = 1"
    "vx a = 1/2" "vy a = 1/2" "vx b = 11/2" "vy b = 1/2"
  shows "connectible s a b"
proof -
  have "vx b = 1/2 + real 5" using assms by simp
  from connectible_unit_steps [OF assms(2,3,4,6) this] assms(1)
  have "connectible s a b \<longleftrightarrow>
      (\<forall>k < 5. sample_free (corridor) (1/2 + real k) (1/2))"
    by simp
  moreover have "sample_free (corridor) (1/2 + real k) (1/2)" if "k < 5" for k
    using that by (simp add: corridor_free)
  ultimately show ?thesis by simp
qed


lemma calculate_distance_mk: "calculate_distance px py (mk_Vertex qx py) = \<bar>qx - px\<bar>"
  by (simp add: calculate_distance_def mk_Vertex_def)

lemma nearest_single: "tree s = [r] \<Longrightarrow> nearest_neighbor s px py = Some 0"
  by (simp add: nearest_neighbor_def nearest_loop.simps [of "[r]"] Let_def)

lemma example_discard:
  "insert_sample example_seeded (15/2) (1/2) = Some (False, example_seeded)"
proof -
  have "\<not> connectible example_seeded example_root
      ((mk_Vertex (15/2) (1/2))\<lparr>parent := Some 0,
         cost := calculate_distance (vx example_root) (vy example_root) (mk_Vertex (15/2) (1/2))\<rparr>)"
    by (rule example_connectible_far)
       (simp_all add: example_seeded_fields example_root_def mk_Vertex_def)
  then show ?thesis
    by (simp add: insert_sample_def nearest_single [OF example_seeded_fields(4)]
        example_seeded_fields Let_def)
qed

lemma radius_single: "calculateBallRadius s 1 2 2 = Num 0"
  using calculateBallRadius_two [of s 1 2] by simp

lemma example_insert:
  "insert_sample example_seeded (11/2) (1/2) = Some (True, example_grown)"
proof -
  define new_position where "new_position = (mk_Vertex (11/2) (1/2))\<lparr>parent := Some 0,
         cost := calculate_distance (vx example_root) (vy example_root) (mk_Vertex (11/2) (1/2))\<rparr>"
  have new: "new_position = example_vertex"
    by (simp add: new_position_def example_vertex_def example_root_def calculate_distance_mk)
       (simp add: mk_Vertex_def)
  have conn: "connectible example_seeded example_root new_position"
    by (rule example_connectible_near)
       (simp_all add: example_seeded_fields example_root_def new example_vertex_def)
  have near: "findVerticesInsideCircle example_seeded (vx new_position) (vy new_position) (Num 0) = []"
    by (simp add: findVerticesInsideCircle_eq example_seeded_fields new example_vertex_def
        example_root_def)
  have s1: "example_seeded\<lparr>tree := tree example_seeded @ [new_position]\<rparr> = example_grown"
    by (simp add: example_seeded_def example_grown_def new)
  have tot: "calculate_cost_from_start example_grown example_vertex = Some 5"
    by (simp add: calculate_cost_from_start_def example_grown_fields example_vertex_def
        cost_walk_Some cost_walk_None example_root_def)
  show ?thesis
    unfolding insert_sample_def nearest_single [OF example_seeded_fields(4)]
    using conn near s1 tot
    by (simp add: Let_def example_seeded_fields new_position_def [symmetric] radius_single new
        example_grown_fields)
qed

lemma example_draws:
  "draw_sample example_sampler 1 0 = (15/2, 1/2)"
  "draw_sample example_sampler 1 2 = (11/2, 1/2)"
  by (simp_all add: draw_sample_def example_sampler_def example_stream_def uniform_real_def)

lemma example_grow: "grow example_sampler 1 0 example_seeded = Some example_grown"
proof -
  have b: "(1 :: int) \<le> max_iterations example_seeded - 1"
    by (simp add: example_seeded_fields)
  have d0: "insert_sample example_seeded (fst (draw_sample example_sampler 1 0))
      (snd (draw_sample example_sampler 1 0)) = Some (False, example_seeded)"
    by (simp only: example_draws fst_conv snd_conv example_discard)
  have d2: "insert_sample example_seeded (fst (draw_sample example_sampler 1 2))
      (snd (draw_sample example_sampler 1 2)) = Some (True, example_grown)"
    by (simp only: example_draws fst_conv snd_conv example_insert)
  have "grow example_sampler 1 0 example_seeded = grow example_sampler 1 2 example_seeded"
    using grow_discard [OF b d0] by (simp del: add_2_eq_Suc add_2_eq_Suc')
  also have "\<dots> = grow example_sampler 2 4 example_grown"
    using grow_insert [OF b d2] by (simp del: add_2_eq_Suc add_2_eq_Suc')
  also have "\<dots> = Some example_grown"
    by (rule grow_done) (simp add: example_grown_fields)
  finally show ?thesis .
qed

text \<open>The radius of the goal connector is twice a connection radius: at most 4 when it is
  a number.\<close>

lemma goal_radius_square:
  "16 < d \<Longrightarrow> \<not> le_fp d (fp_square (fp_times 2 (calculateBallRadius s (int n) 2 2)))"
proof -
  assume d: "16 < d"
  from calculateBallRadius_cases [of s n 2] show ?thesis
  proof
    assume "calculateBallRadius s (int n) 2 2 = NaN"
    then show ?thesis by simp
  next
    assume "\<exists>r. calculateBallRadius s (int n) 2 2 = Num r \<and> r \<le> 2 \<and> ((0 :: real) \<le> 2 \<longrightarrow> 0 \<le> r)"
    then obtain r where r: "calculateBallRadius s (int n) 2 2 = Num r" "r \<le> 2" "0 \<le> r"
      by auto
    then have "r * r \<le> 2 * 2" by (intro mult_mono) simp_all
    with d r(1) show ?thesis by simp
  qed
qed

lemma example_grown_constant: "0 \<le> ball_radius_constant example_grown"
  using ball_radius_constant_bounds [of example_planner] by (simp add: example_grown_def)

lemma example_near:
  "findVerticesInsideCircle example_grown (11/2) (1/2)
     (fp_times 2 (calculateBallRadius example_grown (int (length (tree example_grown))) 2 2)) = [1]"
proof -
  let ?r = "fp_times 2 (calculateBallRadius example_grown (int (length (tree example_grown))) 2 2)"
  have len: "length (tree example_grown) = 2" by (simp add: example_grown_fields)
  have far: "\<not> le_fp 25 (fp_square ?r)"
    by (rule goal_radius_square) simp
  obtain r where r: "calculateBallRadius example_grown (int (length (tree example_grown))) 2 2 = Num r"
    using calculateBallRadius_planner [OF example_grown_constant, of 2 2] len by simp
  have here: "le_fp 0 (fp_square ?r)" by (simp add: r)
  have upt: "[0 ..< 2] = [0, Suc 0]" by (simp add: upt_conv_Cons)
  have "findVerticesInsideCircle example_grown (11/2) (1/2) ?r =
      filter (\<lambda>j. le_fp ((vx ([example_root, example_vertex] ! j) - 11/2)\<^sup>2 +
                    (vy ([example_root, example_vertex] ! j) - 1/2)\<^sup>2) (fp_square ?r)) [0, Suc 0]"
    unfolding findVerticesInsideCircle_eq example_grown_fields by (simp add: upt)
  also have "\<dots> = [1]"
    using far here by (simp add: example_root_def example_vertex_def power2_eq_square)
  finally show ?thesis .
qed

lemma parents_below_example: "parents_below [example_root, example_vertex]"
proof -
  have "parents_below []" by (simp add: parents_below_def)
  then have "parents_below ([] @ [example_root])"
    by (rule parents_below_append) (simp add: example_root_def)
  then have "parents_below (([] @ [example_root]) @ [example_vertex])"
    by (rule parents_below_append) (simp add: example_vertex_def)
  then show ?thesis by simp
qed

lemma example_cost: "calculate_cost_from_start example_grown (tree example_grown ! 1) = Some 5"
  by (simp add: calculate_cost_from_start_def example_grown_fields example_vertex_def
        cost_walk_Some cost_walk_None example_root_def)

text \<open>The example call returns.\<close>

lemma example_goal_loop:
  "\<exists>ev' path. goal_loop example_grown (11/2) (1/2) [1] (mk_Vertex (11/2) (1/2)) poses
      = Some (example_grown\<lparr>tree := tree example_grown @ [ev']\<rparr>, path)"
proof -
  have "connectible example_grown (mk_Vertex (11/2) (1/2)) (tree example_grown ! 1)"
    by (rule connectible_same_position)
       (simp_all add: example_grown_fields example_vertex_def mk_Vertex_def)
  moreover have "(5 :: real) + calculate_distance (11/2) (1/2) (tree example_grown ! 1) < 10000"
    by (simp add: example_grown_fields example_vertex_def calculate_distance_def)
  ultimately have "\<exists>index \<in> set [1]. \<exists>c.
      calculate_cost_from_start example_grown (tree example_grown ! index) = Some c \<and>
      connectible example_grown (mk_Vertex (11/2) (1/2)) (tree example_grown ! index) \<and>
      c + calculate_distance (11/2) (1/2) (tree example_grown ! index) < 10000"
    using example_cost by simp
  moreover have "parents_below (tree example_grown)"
    by (simp add: example_grown_fields parents_below_example)
  moreover have "\<forall>index \<in> set [1]. index < length (tree example_grown)"
    by (simp add: example_grown_fields)
  ultimately show ?thesis
    using goal_loop_accepts [of "[1]" example_grown "mk_Vertex (11/2) (1/2)" "11/2" "1/2" poses]
    by blast
qed

lemma example_plan_returns:
  "\<exists>s' raw. createPlan_raw example_planner example_start example_goal example_stream = Some (s', raw)"
proof -
  have rnd: "\<lparr>x_dis = (getOriginX corridor, getOriginX corridor + real (getSizeInCellsX corridor) * getResolution corridor),
      y_dis = (getOriginY corridor, getOriginY corridor + real (getSizeInCellsY corridor) * getResolution corridor),
      goal_x_dis = (11/2 - 5, 11/2 + 5), goal_y_dis = (1/2 - 5, 1/2 + 5),
      gen = example_stream\<rparr> = example_sampler"
    by (simp add: example_sampler_def corridor_def unit_grid_def)
  have cm: "costmap example_planner = corridor"
    by (simp add: example_planner_def planner_on_def)
  have seed: "(calculateBallRadiusConstant example_planner)
      \<lparr>tree := [(mk_Vertex (position_x example_start) (position_y example_start))\<lparr>cost := 0\<rparr>]\<rparr>
      = example_seeded"
    by (simp add: example_seeded_def example_root_def example_start_def mk_Vertex_def)
  have frames: "frame_id example_start = global_frame example_planner"
    "frame_id example_goal = global_frame example_planner"
    by (simp_all add: example_start_def example_goal_def example_planner_def planner_on_def)
  have g: "position_x example_goal = 11/2" "position_y example_goal = 1/2"
    by (simp_all add: example_goal_def)
  obtain ev' path where "goal_loop example_grown (11/2) (1/2) [1] (mk_Vertex (11/2) (1/2))
      [\<lparr>frame_id = [], position_x = 11/2, position_y = 1/2, position_z = 0\<rparr>]
      = Some (example_grown\<lparr>tree := tree example_grown @ [ev']\<rparr>, path)"
    using example_goal_loop by blast
  then have "createPlan_raw example_planner example_start example_goal example_stream
      = Some (example_grown\<lparr>tree := tree example_grown @ [ev']\<rparr>, path)"
    unfolding createPlan_raw_def Let_def
    by (simp only: frames calculateBallRadiusConstant_fields cm rnd seed example_grow
        option.case simp_thms if_False g example_near)
  then show ?thesis by blast
qed


section \<open>The rewiring example, evaluated\<close>


lemma hall_free: "sample_free hall x (1/2) \<longleftrightarrow> 0 \<le> x \<and> x < 6"
proof -
  have "nat \<lfloor>x\<rfloor> < 6 \<longleftrightarrow> x < 6" if "0 \<le> x"
    using that by (auto simp: nat_less_iff floor_less_iff)
  then show ?thesis
    by (auto simp: sample_free_def hall_def unit_grid_def all_free_def)
qed

lemma rewire_radius:
  "\<exists>r. calculateBallRadius rewire_planner 3 2 2 = Num r \<and> 1 \<le> r * r \<and> r * r \<le> 4"
proof -
  define r where "r = min (sqrt (10 * ln (3 :: real) / 3)) 2"
  have brc: "ball_radius_constant rewire_planner = 10" by (simp add: rewire_planner_def)
  have "calculateBallRadius rewire_planner (int 3) 2 2 = Num r"
    using calculateBallRadius_planner [of rewire_planner 3 2] by (simp add: brc r_def)
  then have v: "calculateBallRadius rewire_planner 3 2 2 = Num r" by simp
  have "1 \<le> 10 * ln (3 :: real) / 3" using ln_3_ge_1 by simp
  then have "1 \<le> sqrt (10 * ln (3 :: real) / 3)" by simp
  then have lo: "1 \<le> r" by (simp add: r_def)
  have hi: "r \<le> 2" by (simp add: r_def)
  from lo have "1 * 1 \<le> r * r" by (intro mult_mono) simp_all
  moreover from lo hi have "r * r \<le> 2 * 2" by (intro mult_mono) simp_all
  ultimately show ?thesis using v by auto
qed

lemma rewire_fields:
  "costmap rewire_planner = hall"
  "interpolation_resolution rewire_planner = 1"
  "tree rewire_planner = [\<lparr>vx = 1/2, vy = 1/2, cost = 0, parent = None\<rparr>,
              \<lparr>vx = 9/2, vy = 1/2, cost = 4, parent = Some 0\<rparr>,
              \<lparr>vx = 2, vy = 1/2, cost = 5/2, parent = Some 1\<rparr>]"
  by (simp_all add: rewire_planner_def)

lemma rewire_nearest: "nearest_neighbor rewire_planner (3/2) (1/2) = Some 2"
  by (simp add: nearest_neighbor_def rewire_fields nearest_loop.simps Let_def
      calculate_distance_same_y)

lemma rewire_near:
  "findVerticesInsideCircle rewire_planner (3/2) (1/2)
     (calculateBallRadius rewire_planner (int (length (tree rewire_planner))) 2 2) = [0, 2]"
proof -
  from rewire_radius obtain r where
    r: "calculateBallRadius rewire_planner 3 2 2 = Num r" "1 \<le> r * r" "r * r \<le> 4"
    by blast
  have len: "int (length (tree rewire_planner)) = 3" by (simp add: rewire_fields)
  have upt: "[0 ..< 3] = [0, 1, 2]" by (simp add: upt_conv_Cons)
  have far: "\<not> 9 \<le> r * r" using r(3) by simp
  have near: "1 / 4 \<le> r * r" using r(2) by simp
  show ?thesis
    unfolding findVerticesInsideCircle_eq len r(1)
    using far near r(2)
    by (simp add: rewire_fields upt power2_eq_square)
qed


text \<open>At the resolution 1 a segment along the x axis of a representable length
  \<open>0 < h \<le> 1\<close> has one step: its only sample is its start.\<close>

lemma connectible_one_step:
  assumes "interpolation_resolution s = 1" and "vy b = vy a"
    and "hypot (fsub (vx b) (vx a)) 0 = h" and "rnd64 h = h" and "0 < h" and "h \<le> 1"
  shows "connectible s a b \<longleftrightarrow> sample_free (costmap s) (vx a) (vy a)"
proof -
  have dy: "fsub (vy b) (vy a) = 0" using assms(2) by (simp add: fsub_self)
  have "\<lceil>h\<rceil> = 1" using assms(5,6) by (simp add: ceiling_eq_iff)
  then have st: "\<lceil>fdiv (hypot (fsub (vx b) (vx a)) 0) (interpolation_resolution s)\<rceil> = int 1"
    by (simp add: assms(1,3,4) fdiv_def)
  have "connectible_samples s a b =
      sample_points (fdiv (fsub (vx b) (vx a)) (real 1)) (fdiv 0 (real 1)) 1 (vx a) (vy a)"
    by (rule connectible_samples_eval(2) [OF refl dy st refl refl])
  then show ?thesis
    unfolding connectible_iff_samples by simp
qed

lemma hypot_half: "hypot (fsub (3/2) 2) 0 = 1/2"
proof -
  have "fsub (3/2) 2 = - (1/2)" by (simp add: fsub_def rnd64_neg_half)
  then show ?thesis by (simp add: hypot_zero_right rnd64_neg_half)
qed

lemma hypot_one: "hypot (fsub (1/2) (3/2)) 0 = 1"
proof -
  have "rnd64 (- 1) = - 1" using rnd64_of_int [of "- 1"] by simp
  then have "fsub (1/2) (3/2) = - 1" by (simp add: fsub_def)
  with \<open>rnd64 (- 1) = - 1\<close> show ?thesis by (simp add: hypot_zero_right)
qed

lemma rewire_insert:
  "insert_sample rewire_planner (3/2) (1/2) = Some (True, rewire_result)"
proof -
  define R where "R = \<lparr>vx = 1/2, vy = 1/2, cost = 0, parent = None\<rparr>"
  define A where "A = \<lparr>vx = 9/2, vy = 1/2, cost = 4, parent = Some (0 :: nat)\<rparr>"
  define B where "B = \<lparr>vx = 2, vy = 1/2, cost = 5/2, parent = Some (1 :: nat)\<rparr>"
  define new_position where "new_position = \<lparr>vx = 3/2, vy = 1/2, cost = 1/2, parent = Some (2 :: nat)\<rparr>"
  define final where "final = \<lparr>vx = 3/2, vy = 1/2, cost = 1, parent = Some (0 :: nat)\<rparr>"
  define s1 where "s1 = rewire_planner\<lparr>tree := [R, A, B, new_position]\<rparr>"
  define s2 where "s2 = rewire_planner\<lparr>tree := [R, A, B, final]\<rparr>"
  have t: "tree rewire_planner = [R, A, B]"
    by (simp add: rewire_fields R_def A_def B_def)
  have new: "(mk_Vertex (3/2) (1/2))\<lparr>parent := Some 2,
      cost := calculate_distance (vx (tree rewire_planner ! 2)) (vy (tree rewire_planner ! 2))
                (mk_Vertex (3/2) (1/2))\<rparr> = new_position"
    by (simp add: t B_def calculate_distance_mk new_position_def) (simp add: mk_Vertex_def)
  have conn0: "connectible rewire_planner (tree rewire_planner ! 2) new_position"
    by (subst connectible_one_step [where h = "1/2"])
       (simp_all add: rewire_fields new_position_def hall_free hypot_half rnd64_half)
  have s1: "rewire_planner\<lparr>tree := tree rewire_planner @ [new_position]\<rparr> = s1"
    by (simp add: s1_def t)
  have f1: "tree s1 = [R, A, B, new_position]" "costmap s1 = hall" "interpolation_resolution s1 = 1"
    by (simp_all add: s1_def rewire_fields)
  have f2: "tree s2 = [R, A, B, final]"
    by (simp_all add: s2_def)
  have tot: "calculate_cost_from_start s1 (last (tree s1)) = Some 7"
    by (simp add: calculate_cost_from_start_def f1 new_position_def cost_walk_Some cost_walk_None
        R_def A_def B_def)
  have c0: "calculate_cost_from_start s1 (tree s1 ! 0) = Some 0"
    by (simp add: calculate_cost_from_start_def f1 cost_walk_None R_def)
  have conn1: "connectible s1 new_position R"
    by (subst connectible_one_step [where h = 1])
       (simp_all add: f1 new_position_def R_def hall_free hypot_one rnd64_1)
  have upd: "s1\<lparr>tree := (tree s1)[length (tree s1) - 1 :=
      new_position\<lparr>parent := Some 0, cost := calculate_distance (vx new_position) (vy new_position) R\<rparr>]\<rparr> = s2"
    by (simp add: s1_def s2_def final_def new_position_def R_def calculate_distance_same_y)
  have c2: "calculate_cost_from_start s2 (tree s2 ! 2) = Some (13/2)"
    by (simp add: calculate_cost_from_start_def f2 cost_walk_Some cost_walk_None R_def A_def B_def)
  have d0: "calculate_distance (vx new_position) (vy new_position) R = 1"
    by (simp add: new_position_def R_def calculate_distance_same_y)
  have d2: "calculate_distance (vx final) (vy final) B = 1/2"
    by (simp add: final_def B_def calculate_distance_same_y)
  have rw: "rewire_loop s1 [0, 2] 7 = Some s2"
    using c0 c2 conn1 upd d0 d2
    by (simp add: Let_def f1 f2)
  have res: "s2 = rewire_result"
    by (simp add: s2_def rewire_result_def final_def t)
  have near: "findVerticesInsideCircle rewire_planner (vx new_position) (vy new_position)
     (calculateBallRadius rewire_planner (int (length (tree rewire_planner))) 2 2) = [0, 2]"
    using rewire_near by (simp add: new_position_def)
  show ?thesis
    unfolding insert_sample_def rewire_nearest option.case Let_def new
    by (simp only: conn0 if_True s1 near tot rw option.case res)
qed

lemma rewire_parents_below: "parents_below (tree rewire_planner)"
proof -
  have "parents_below []" by (simp add: parents_below_def)
  then have "parents_below ([] @ [\<lparr>vx = 1/2, vy = 1/2, cost = 0, parent = None\<rparr>])"
    by (rule parents_below_append) simp
  then have "parents_below (([] @ [\<lparr>vx = 1/2, vy = 1/2, cost = 0, parent = None\<rparr>])
      @ [\<lparr>vx = 9/2, vy = 1/2, cost = 4, parent = Some 0\<rparr>])"
    by (rule parents_below_append) simp
  then have "parents_below ((([] @ [\<lparr>vx = 1/2, vy = 1/2, cost = 0, parent = None\<rparr>])
      @ [\<lparr>vx = 9/2, vy = 1/2, cost = 4, parent = Some 0\<rparr>])
      @ [\<lparr>vx = 2, vy = 1/2, cost = 5/2, parent = Some 1\<rparr>])"
    by (rule parents_below_append) simp
  then show ?thesis by (simp add: rewire_fields)
qed


section \<open>The theorems at the examples\<close>

text \<open>The insertion theorem at the rewiring example: the sample is inserted, the three old
  vertices stay, and the new vertex gets a total cost.\<close>

theorem insertion_changes_only_new_vertex_witness:
  "insert_sample rewire_planner (3/2) (1/2) = Some (True, rewire_result)
   \<and> parents_below (tree rewire_planner)
   \<and> tree rewire_result ! 2 = tree rewire_planner ! 2
   \<and> (\<exists>v. rewire_result = rewire_planner\<lparr>tree := tree rewire_planner @ [v]\<rparr>)
   \<and> (\<exists>T. calculate_cost_from_start rewire_result (last (tree rewire_result)) = Some T)"
proof -
  have "2 < length (tree rewire_planner)" by (simp add: rewire_fields)
  with insertion_changes_only_new_vertex [OF rewire_insert] rewire_insert rewire_parents_below
  show ?thesis by blast
qed

text \<open>The budget theorem at the example call: the first sample lies behind the obstacle,
  its connectivity check from the root (the nearest vertex) fails and it is discarded; the
  second sample passes the check and is inserted; the loop returns a tree of two vertices
  for the budget of two.\<close>

theorem growth_budget_witness:
  "nearest_neighbor example_seeded (15/2) (1/2) = Some 0
   \<and> \<not> connectible example_seeded (tree example_seeded ! 0) (mk_Vertex (15/2) (1/2))
   \<and> insert_sample example_seeded (15/2) (1/2) = Some (False, example_seeded)
   \<and> connectible example_seeded (tree example_seeded ! 0) (mk_Vertex (11/2) (1/2))
   \<and> (\<exists>s1. insert_sample example_seeded (11/2) (1/2) = Some (True, s1) \<and>
         length (tree s1) = length (tree example_seeded) + 1)
   \<and> grow example_sampler 1 0 example_seeded = grow example_sampler 1 (0 + 2) example_seeded
   \<and> grow example_sampler 1 2 example_seeded = grow example_sampler (1 + 1) (2 + 2) example_grown
   \<and> length (tree example_grown) = length (tree example_seeded) + 1
   \<and> grow example_sampler 1 0 example_seeded = Some example_grown
   \<and> int (length (tree example_grown)) =
       int (length (tree example_seeded)) + max 0 (max_iterations example_seeded - 1)"
proof -
  have b: "(1 :: int) \<le> max_iterations example_seeded - 1"
    by (simp add: example_seeded_fields)
  have ne: "tree example_seeded \<noteq> []" by (simp add: example_seeded_fields)
  have pb: "parents_below (tree example_seeded)"
    by (simp add: example_seeded_fields parents_below_def example_root_def)
  have far: "\<not> connectible example_seeded (tree example_seeded ! 0) (mk_Vertex (15/2) (1/2))"
    by (rule example_connectible_far)
       (simp_all add: example_seeded_fields example_root_def mk_Vertex_def)
  have near: "connectible example_seeded (tree example_seeded ! 0) (mk_Vertex (11/2) (1/2))"
    by (rule example_connectible_near)
       (simp_all add: example_seeded_fields example_root_def mk_Vertex_def)
  have n0: "nearest_neighbor example_seeded (15/2) (1/2) = Some 0 \<and>
      insert_sample example_seeded (15/2) (1/2) = Some (False, example_seeded)"
    using growth_budget [where s = example_seeded and rand_x = "15/2" and rand_y = "1/2"] ne far
    by (auto simp: example_seeded_fields)
  have n1: "\<exists>s1. insert_sample example_seeded (11/2) (1/2) = Some (True, s1) \<and>
         length (tree s1) = length (tree example_seeded) + 1"
    using growth_budget [where s = example_seeded and rand_x = "11/2" and rand_y = "1/2"] ne near pb
    by (auto simp: example_seeded_fields)
  have d0: "insert_sample example_seeded (fst (draw_sample example_sampler 1 0))
      (snd (draw_sample example_sampler 1 0)) = Some (False, example_seeded)"
    by (simp only: example_draws fst_conv snd_conv example_discard)
  have d2: "insert_sample example_seeded (fst (draw_sample example_sampler 1 2))
      (snd (draw_sample example_sampler 1 2)) = Some (True, example_grown)"
    by (simp only: example_draws fst_conv snd_conv example_insert)
  have g0: "grow example_sampler 1 0 example_seeded = grow example_sampler 1 (0 + 2) example_seeded"
    using growth_budget [where i = 1 and s = example_seeded and rnd = example_sampler and k = 0
        and ?s1.0 = example_seeded] b d0
    by blast
  have g2: "length (tree example_grown) = length (tree example_seeded) + 1 \<and>
      grow example_sampler 1 2 example_seeded = grow example_sampler (1 + 1) (2 + 2) example_grown"
    using growth_budget [where i = 1 and s = example_seeded and rnd = example_sampler and k = 2
        and ?s1.0 = example_grown] b d2
    by blast
  have g3: "int (length (tree example_grown)) =
       int (length (tree example_seeded)) + max 0 (max_iterations example_seeded - 1)"
    using growth_budget [where i = 1 and s = example_seeded and rnd = example_sampler and k = 0
        and s' = example_grown] example_grow
    by blast
  from n0 n1 far near g0 g2 g3 example_grow show ?thesis by blast
qed

text \<open>The example call returns, and its tree satisfies the invariant.\<close>

theorem tree_invariant_preserved_witness:
  "\<exists>s' raw. createPlan_raw example_planner example_start example_goal example_stream = Some (s', raw)
     \<and> tree_ok (position_x example_start) (position_y example_start) (tree s')"
proof -
  from example_plan_returns obtain s' raw where
    r: "createPlan_raw example_planner example_start example_goal example_stream = Some (s', raw)"
    by blast
  have "frame_id example_start = global_frame example_planner"
    "frame_id example_goal = global_frame example_planner"
    by (simp_all add: example_start_def example_goal_def example_planner_def planner_on_def)
  with r tree_invariant_preserved [where s = example_planner and start = example_start
      and goal = example_goal and stream = example_stream and ?s4.0 = s' and raw = raw]
  have "tree_ok (position_x example_start) (position_y example_start) (tree s')" by blast
  with r show ?thesis by blast
qed

text \<open>The raw path of the example call ends with the goal position twice.\<close>

theorem raw_path_ends_with_goal_twice_witness:
  "\<exists>s' raw pre.
     createPlan_raw example_planner example_start example_goal example_stream = Some (s', raw)
     \<and> raw = pre @ [pose_at (position_x example_goal) (position_y example_goal),
          \<lparr>frame_id = [], position_x = position_x example_goal,
            position_y = position_y example_goal, position_z = 0\<rparr>]"
proof -
  from example_plan_returns obtain s' raw where
    r: "createPlan_raw example_planner example_start example_goal example_stream = Some (s', raw)"
    by blast
  have "frame_id example_start = global_frame example_planner"
    "frame_id example_goal = global_frame example_planner"
    by (simp_all add: example_start_def example_goal_def example_planner_def planner_on_def)
  from raw_path_ends_with_goal_twice [OF r this] r show ?thesis by blast
qed

text \<open>On the grown example tree the goal connector accepts the vertex at the goal position
  after one scan, with the cost 5 of that vertex; the path it emits begins with the pose of
  the root and ends with the pose of that vertex followed by the pose of the goal vertex.
  With an empty near set the goal connector never returns.\<close>

theorem goal_connector_stops_or_diverges_witness:
  "(\<exists>ev' path pre.
      goal_scan example_grown (11/2) (1/2) [1] (mk_Vertex (11/2) (1/2)) Infinity
        = Some (ev', Finite 5) \<and>
      goal_loop example_grown (11/2) (1/2) [1] (mk_Vertex (11/2) (1/2)) []
        = Some (example_grown\<lparr>tree := tree example_grown @ [ev']\<rparr>, path) \<and>
      parent ev' = Some 1 \<and> vx ev' = 11/2 \<and> vy ev' = 1/2 \<and>
      path = pre @ [pose_at (11/2) (1/2)] \<and>
      pose_at (11/2) (1/2) \<in> set pre \<and>
      hd path = pose_at (1/2) (1/2))
   \<and> goal_loop example_grown (11/2) (1/2) [] (mk_Vertex (11/2) (1/2)) [] = None"
proof -
  have "connectible example_grown (mk_Vertex (11/2) (1/2)) (tree example_grown ! 1)"
    by (rule connectible_same_position)
       (simp_all add: example_grown_fields example_vertex_def mk_Vertex_def)
  moreover have dist: "calculate_distance (11/2) (1/2) (tree example_grown ! 1) = 0"
    by (simp add: example_grown_fields example_vertex_def calculate_distance_def)
  ultimately have a: "\<exists>index \<in> set [1]. \<exists>c.
      calculate_cost_from_start example_grown (tree example_grown ! index) = Some c \<and>
      connectible example_grown (mk_Vertex (11/2) (1/2)) (tree example_grown ! index) \<and>
      c + calculate_distance (11/2) (1/2) (tree example_grown ! index) < 10000"
    using example_cost by simp
  have pb: "parents_below (tree example_grown)"
    by (simp add: example_grown_fields parents_below_example)
  have nb: "\<forall>index \<in> set [1]. index < length (tree example_grown)"
    by (simp add: example_grown_fields)
  have none: "\<not> (\<exists>index \<in> set []. \<exists>c.
      calculate_cost_from_start example_grown (tree example_grown ! index) = Some c \<and>
      connectible example_grown (mk_Vertex (11/2) (1/2)) (tree example_grown ! index) \<and>
      c + calculate_distance (11/2) (1/2) (tree example_grown ! index) < 10000)"
    by simp
  from goal_connector_stops_or_diverges [of "[1]" example_grown "mk_Vertex (11/2) (1/2)"
      "11/2" "1/2" "[]"] a pb nb
  obtain ev' m path pre index c r where
    w: "goal_scan example_grown (11/2) (1/2) [1] (mk_Vertex (11/2) (1/2)) Infinity
          = Some (ev', Finite m)"
       "goal_loop example_grown (11/2) (1/2) [1] (mk_Vertex (11/2) (1/2)) []
          = Some (example_grown\<lparr>tree := tree example_grown @ [ev']\<rparr>, path)"
       "vx ev' = vx (mk_Vertex (11/2) (1/2))" "vy ev' = vy (mk_Vertex (11/2) (1/2))"
       "index \<in> set [1]" "parent ev' = Some index"
       "calculate_cost_from_start example_grown (tree example_grown ! index) = Some c"
       "m = c + calculate_distance (11/2) (1/2) (tree example_grown ! index)"
       "path = pre @ pose_at (vx (mk_Vertex (11/2) (1/2))) (vy (mk_Vertex (11/2) (1/2))) # []"
       "pose_at (vx (tree example_grown ! index)) (vy (tree example_grown ! index)) \<in> set pre"
       "r < length (tree example_grown)" "parent (tree example_grown ! r) = None"
       "hd path = pose_at (vx (tree example_grown ! r)) (vy (tree example_grown ! r))"
    by blast
  from w(5) have index: "index = 1" by simp
  from w(7) example_cost have c: "c = 5" by (simp add: index)
  have m: "m = 5" using w(8) c dist by (simp add: index)
  have r: "r = 0"
  proof (rule ccontr)
    assume "r \<noteq> 0"
    with w(11) have "r = 1" by (simp add: example_grown_fields)
    with w(12) show False by (simp add: example_grown_fields example_vertex_def)
  qed
  have "\<exists>ev' path pre.
      goal_scan example_grown (11/2) (1/2) [1] (mk_Vertex (11/2) (1/2)) Infinity
        = Some (ev', Finite 5) \<and>
      goal_loop example_grown (11/2) (1/2) [1] (mk_Vertex (11/2) (1/2)) []
        = Some (example_grown\<lparr>tree := tree example_grown @ [ev']\<rparr>, path) \<and>
      parent ev' = Some 1 \<and> vx ev' = 11/2 \<and> vy ev' = 1/2 \<and>
      path = pre @ [pose_at (11/2) (1/2)] \<and>
      pose_at (11/2) (1/2) \<in> set pre \<and>
      hd path = pose_at (1/2) (1/2)"
    using w(1,2,3,4,6,9,10,13) unfolding index m r
    by (intro exI [of _ ev'] exI [of _ path] exI [of _ pre])
       (simp add: mk_Vertex_def example_grown_fields example_vertex_def example_root_def)
  moreover from goal_connector_stops_or_diverges [of "[]" example_grown "mk_Vertex (11/2) (1/2)"
      "11/2" "1/2" "[]"] none
  have "goal_loop example_grown (11/2) (1/2) [] (mk_Vertex (11/2) (1/2)) [] = None"
    by blast
  ultimately show ?thesis by blast
qed

section \<open>Properties of the smoother\<close>

text \<open>The model of the \<^verbatim>\<open>double\<close> counter: the literal \<^verbatim>\<open>0.05\<close> has a significand of 53 bits
  and lies within half a unit in the last place of \<open>1/20\<close>; rounding moves a number by at
  most half a unit in the last place that is kept.\<close>

lemma d_step_nearest:
  "2 ^ 52 \<le> significand d_step \<and> significand d_step < 2 ^ 53 \<and>
   \<bar>dval d_step - 1 / 20\<bar> \<le> 1 / 2 ^ 58"
  by (simp add: d_step_def dval_def)

lemma round53_nearest:
  assumes "53 < bitlen \<bar>m\<bar>"
  shows "exponent (round53 m e) = e + (bitlen \<bar>m\<bar> - 53) \<and>
     2 * \<bar>significand (round53 m e) * 2 ^ nat (bitlen \<bar>m\<bar> - 53) - m\<bar> \<le> 2 ^ nat (bitlen \<bar>m\<bar> - 53)"
proof -
  define k where "k = nat (bitlen \<bar>m\<bar> - 53)"
  define q where "q = m div 2 ^ k"
  define r where "r = m mod 2 ^ k"
  from assms have kpos: "0 < k" by (simp add: k_def)
  then have pw: "(2 :: int) ^ k = 2 * 2 ^ (k - 1)"
    by (cases k) simp_all
  have m: "m = q * 2 ^ k + r"
    unfolding q_def r_def by (rule div_mult_mod_eq [symmetric])
  have r: "0 \<le> r" "r < 2 ^ k" by (simp_all add: r_def)
  have ik: "int k = bitlen \<bar>m\<bar> - 53" using assms by (simp add: k_def)
  show ?thesis
  proof (cases "2 ^ (k - 1) < r \<or> (r = 2 ^ (k - 1) \<and> odd q)")
    case True
    then have rd: "round53 m e = Double (q + 1) (e + int k)"
      using assms by (simp add: round53_def Let_def k_def [symmetric] q_def r_def)
    have "(q + 1) * 2 ^ k - m = 2 ^ k - r" using m by (simp add: algebra_simps)
    moreover from True have "2 ^ (k - 1) \<le> r" by auto
    ultimately have "2 * \<bar>(q + 1) * 2 ^ k - m\<bar> \<le> 2 ^ k"
      using r pw by simp
    with rd ik show ?thesis by (simp add: k_def [symmetric])
  next
    case False
    then have rd: "round53 m e = Double q (e + int k)"
      using assms by (simp add: round53_def Let_def k_def [symmetric] q_def r_def)
    have "q * 2 ^ k - m = - r" using m by simp
    moreover from False have "r \<le> 2 ^ (k - 1)" by auto
    ultimately have "2 * \<bar>q * 2 ^ k - m\<bar> \<le> 2 ^ k"
      using r pw by simp
    with rd ik show ?thesis by (simp add: k_def [symmetric])
  qed
qed

lemma round53_exact: "bitlen \<bar>m\<bar> \<le> 53 \<Longrightarrow> round53 m e = Double m e"
  by (simp add: round53_def)

text \<open>The sum of the counter model is the binary64 sum of the values: the rounding to 53
  significant bits of a significand and the rounding of a real number to the nearest
  representable number agree (for exponents in the range of binary64).\<close>

lemma dval_powr: "dval d = of_int (significand d) * 2 powr of_int (exponent d)"
proof (cases "0 \<le> exponent d")
  case True
  then have "(2 :: real) powr of_int (exponent d) = 2 ^ nat (exponent d)"
    by (simp add: powr_realpow [symmetric])
  with True show ?thesis by (simp add: dval_def)
next
  case False
  then have "exponent d = - int (nat (- exponent d))" by simp
  then have "(2 :: real) powr of_int (exponent d) = 2 powr (- real (nat (- exponent d)))"
    by (metis of_int_minus of_int_of_nat_eq)
  also have "\<dots> = 1 / 2 ^ nat (- exponent d)"
    by (simp add: powr_minus powr_realpow divide_simps)
  finally show ?thesis using False by (simp add: dval_def)
qed

lemma round_ties_even_divide:
  assumes "0 < k"
  shows "round_ties_even (of_int m / 2 ^ k) =
     (if 2 ^ (k - 1) < m mod 2 ^ k \<or> (m mod 2 ^ k = 2 ^ (k - 1) \<and> odd (m div 2 ^ k))
      then m div 2 ^ k + 1 else m div 2 ^ k)"
proof -
  define q where "q = m div 2 ^ k"
  define r where "r = m mod 2 ^ k"
  have pw: "(2 :: int) ^ k = 2 * 2 ^ (k - 1)" using assms by (cases k) simp_all
  have m: "m = q * 2 ^ k + r"
    unfolding q_def r_def by (rule div_mult_mod_eq [symmetric])
  have fl: "\<lfloor>real_of_int m / 2 ^ k\<rfloor> = q"
    using floor_divide_of_int_eq [of m "2 ^ k"] by (simp add: q_def)
  have "real_of_int m = of_int q * 2 ^ k + of_int r"
    by (subst m) simp
  then have fr: "real_of_int m / 2 ^ k - of_int q = of_int r / 2 ^ k"
    by (simp add: field_simps)
  have half: "real_of_int r / 2 ^ k < 1 / 2 \<longleftrightarrow> r < 2 ^ (k - 1)"
  proof -
    have "real_of_int r / 2 ^ k < 1 / 2 \<longleftrightarrow> 2 * real_of_int r < 2 ^ k"
      by (simp add: field_simps)
    also have "\<dots> \<longleftrightarrow> real_of_int (2 * r) < real_of_int (2 ^ k)" by simp
    also have "\<dots> \<longleftrightarrow> 2 * r < 2 ^ k" by (simp only: of_int_less_iff)
    also have "\<dots> \<longleftrightarrow> r < 2 ^ (k - 1)" by (simp add: pw)
    finally show ?thesis .
  qed
  have half2: "1 / 2 < real_of_int r / 2 ^ k \<longleftrightarrow> 2 ^ (k - 1) < r"
  proof -
    have "1 / 2 < real_of_int r / 2 ^ k \<longleftrightarrow> 2 ^ k < 2 * real_of_int r"
      by (simp add: field_simps)
    also have "\<dots> \<longleftrightarrow> real_of_int (2 ^ k) < real_of_int (2 * r)" by simp
    also have "\<dots> \<longleftrightarrow> 2 ^ k < 2 * r" by (simp only: of_int_less_iff)
    also have "\<dots> \<longleftrightarrow> 2 ^ (k - 1) < r" by (simp add: pw)
    finally show ?thesis .
  qed
  show ?thesis
    unfolding round_ties_even_def Let_def fl fr half half2 q_def [symmetric] r_def [symmetric]
    by auto
qed

lemma round53_rnd64:
  assumes "- 1074 \<le> e"
  shows "dval (round53 m e) = rnd64 (of_int m * 2 powr of_int e)"
proof (cases "bitlen \<bar>m\<bar> \<le> 53")
  case True
  have "\<bar>m\<bar> < 2 ^ 53"
  proof (cases "m = 0")
    case False
    then have pos: "0 < \<bar>m\<bar>" by simp
    with True have "\<lfloor>log 2 (real_of_int \<bar>m\<bar>)\<rfloor> < 53"
      by (simp add: bitlen_alt_def)
    then have "log 2 (real_of_int \<bar>m\<bar>) < 53" by (simp add: floor_less_iff)
    then have "real_of_int \<bar>m\<bar> < 2 powr 53"
      using pos by (subst (asm) log_less_iff) simp_all
    then have "real_of_int \<bar>m\<bar> < real_of_int (2 ^ 53)" by (simp add: powr_realpow [symmetric])
    then show ?thesis by (simp only: of_int_less_iff)
  qed simp
  from rnd64_exact [OF this assms] True show ?thesis
    by (simp add: round53_exact dval_powr)
next
  case False
  define k where "k = nat (bitlen \<bar>m\<bar> - 53)"
  from False have kpos: "0 < k" and ik: "bitlen \<bar>m\<bar> = int k + 53"
    by (simp_all add: k_def)
  from False have m0: "m \<noteq> 0" by auto
  then have pos: "0 < \<bar>m\<bar>" by simp
  define x :: real where "x = of_int m * 2 powr of_int e"
  have x0: "x \<noteq> 0" using m0 by (simp add: x_def)
  have "\<lfloor>log 2 (real_of_int \<bar>m\<bar>)\<rfloor> = int k + 52"
    using ik pos by (simp add: bitlen_alt_def)
  moreover have "log 2 \<bar>x\<bar> = log 2 (real_of_int \<bar>m\<bar>) + of_int e"
    using pos by (simp add: x_def abs_mult log_mult)
  ultimately have "\<lfloor>log 2 \<bar>x\<bar>\<rfloor> = int k + 52 + e" by simp
  then have qx: "quantum x = int k + e"
    using assms by (simp add: quantum_def)
  have pk: "(2 :: real) powr of_int (int k + e) = 2 ^ k * 2 powr of_int e"
    by (simp add: powr_add powr_realpow)
  then have sc: "x / 2 powr of_int (int k + e) = of_int m / 2 ^ k"
    by (simp add: x_def)
  have "rnd64 x = of_int (round_ties_even (x / 2 powr of_int (int k + e))) * 2 powr of_int (int k + e)"
    using x0 by (simp only: rnd64_def qx if_False)
  then have "rnd64 x = of_int (round_ties_even (of_int m / 2 ^ k)) * 2 powr of_int (int k + e)"
    by (simp only: sc)
  then have r: "rnd64 x = of_int (round_ties_even (of_int m / 2 ^ k)) * (2 ^ k * 2 powr of_int e)"
    by (simp only: pk)
  have d: "dval (Double q (e + int k)) = of_int q * (2 ^ k * 2 powr of_int e)" for q
    by (simp add: dval_powr powr_add powr_realpow)
  show ?thesis
    unfolding x_def [symmetric] r round_ties_even_divide [OF kpos]
    using False by (simp add: round53_def Let_def k_def [symmetric] d)
qed

lemma dadd_fadd:
  assumes "- 1074 \<le> exponent a" and "- 1074 \<le> exponent b"
  shows "dval (dadd a b) = fadd (dval a) (dval b)"
proof -
  define e where "e = min (exponent a) (exponent b)"
  have e: "- 1074 \<le> e" using assms by (simp add: e_def)
  have s: "real_of_int (significand d * 2 ^ nat (exponent d - e)) * 2 powr of_int e = dval d"
    if "e \<le> exponent d" for d
  proof -
    define j where "j = nat (exponent d - e)"
    have ex: "exponent d = int j + e" using that by (simp add: j_def)
    have "(2 :: real) powr of_int (int j + e) = 2 ^ j * 2 powr of_int e"
      by (simp add: powr_add powr_realpow)
    then have "(2 :: real) powr of_int (exponent d) = 2 ^ j * 2 powr of_int e"
      by (simp only: ex [symmetric])
    then show ?thesis by (simp add: dval_powr j_def)
  qed
  have "dval (dadd a b) =
      rnd64 (of_int (significand a * 2 ^ nat (exponent a - e) + significand b * 2 ^ nat (exponent b - e))
               * 2 powr of_int e)"
    by (simp add: dadd_def Let_def e_def [symmetric] round53_rnd64 [OF e])
  also have "of_int (significand a * 2 ^ nat (exponent a - e) + significand b * 2 ^ nat (exponent b - e))
               * 2 powr of_int e = dval a + dval b"
    using s [of a] s [of b] by (simp add: e_def algebra_simps)
  finally show ?thesis by (simp add: fadd_def)
qed

text \<open>The inner loop returns whenever the counter leaves \<open>[0, 1]\<close> within the fuel of
  \<open>loop_parameters\<close>, and then it has appended one curve point per value of the counter.\<close>

lemma bezier_loop_eq:
  "length (loop_parameters n t) < n \<Longrightarrow>
     bezier_loop P0 P1 P2 P3 t acc =
       Some (acc @ map (\<lambda>u. computeBezierPoint P0 P1 P2 P3 (dval u)) (loop_parameters n t))"
proof (induction n arbitrary: t acc)
  case 0
  then show ?case by simp
next
  case (Suc n)
  show ?case
  proof (cases "dle t d_one")
    case False
    then show ?thesis by (subst bezier_loop.simps) simp
  next
    case True
    with Suc.prems have "length (loop_parameters n (dadd t d_step)) < n" by simp
    from Suc.IH [OF this] True show ?thesis
      by (subst bezier_loop.simps) simp
  qed
qed

lemma bezier_parameters_values:
  "length (loop_parameters 100 d_zero) < 100"
  "length bezier_parameters = 20"
  "last bezier_parameters = Double 8556839292003945 (- 53)"
  "dadd (last bezier_parameters) d_step = Double 4503599627370497 (- 52)"
  "\<not> dle (dadd (last bezier_parameters) d_step) d_one"
  unfolding bezier_parameters_def by code_simp+

lemma bezier_loop_from_zero:
  "bezier_loop P0 P1 P2 P3 d_zero acc =
     Some (acc @ map (\<lambda>u. computeBezierPoint P0 P1 P2 P3 (dval u)) bezier_parameters)"
  unfolding bezier_parameters_def
  by (rule bezier_loop_eq) (rule bezier_parameters_values(1))

lemma window_loop_eq:
  "window_loop poses i acc =
     Some (acc @ concat (map (\<lambda>j. map (\<lambda>u. computeBezierPoint (poses ! (j - 1)) (poses ! j)
                 (poses ! (j + 1)) (poses ! (j + 2)) (dval u)) bezier_parameters)
               [i ..< length poses - 2]))"
proof (induction poses i acc rule: window_loop.induct)
  case (1 poses i acc)
  show ?case
  proof (cases "i < length poses - 2")
    case False
    then show ?thesis by (subst window_loop.simps) simp
  next
    case True
    then have upt: "[i ..< length poses - 2] = i # [i + 1 ..< length poses - 2]"
      by (simp add: upt_conv_Cons)
    show ?thesis
      using True "1.IH" [OF True bezier_loop_from_zero]
      by (subst window_loop.simps) (simp add: bezier_loop_from_zero upt)
  qed
qed

lemma smoothPath_eq:
  "smoothPath poses =
     (if length poses < 4 then Some poses
      else Some (poses ! 0 #
        concat (map (\<lambda>j. map (\<lambda>u. computeBezierPoint (poses ! (j - 1)) (poses ! j)
                 (poses ! (j + 1)) (poses ! (j + 2)) (dval u)) bezier_parameters)
               [1 ..< length poses - 2]) @ [last poses]))"
  by (simp add: smoothPath_def window_loop_eq)

text \<open>The smoother returns on every path; a path of \<open>n \<ge> 4\<close> poses becomes one of
  \<open>2 + 20 (n - 3)\<close> poses.\<close>

lemma smoothPath_length:
  assumes "4 \<le> length poses"
  shows "\<exists>smoothed. smoothPath poses = Some smoothed \<and>
           length smoothed = 2 + 20 * (length poses - 3) \<and>
           hd smoothed = poses ! 0 \<and> last smoothed = last poses"
proof -
  have "length (concat (map (\<lambda>j. map (\<lambda>u. computeBezierPoint (poses ! (j - 1)) (poses ! j)
                 (poses ! (j + 1)) (poses ! (j + 2)) (dval u)) bezier_parameters)
               [a ..< b])) = 20 * (b - a)" for a b
    by (induction b) (simp_all add: bezier_parameters_values(2) Suc_diff_le)
  with assms show ?thesis
    by (simp add: smoothPath_eq)
qed

text \<open>The smoother always returns, so a planning call returns whenever its raw path is
  produced.\<close>

lemma createPlan_returns:
  assumes "createPlan_raw s start goal stream = Some (s', raw)"
  shows "\<exists>smoothed. createPlan s start goal stream = Some (s', smoothed)"
proof (cases "frame_id start \<noteq> global_frame s \<or> frame_id goal \<noteq> global_frame s")
  case True
  with assms show ?thesis by (simp add: createPlan_def)
next
  case False
  obtain smoothed where "smoothPath raw = Some smoothed"
    by (cases "length raw < 4") (simp_all add: smoothPath_eq)
  with False assms show ?thesis by (simp add: createPlan_def)
qed

text \<open>
  Claim C1, evaluated on the code.  \<^verbatim>\<open>smoothPath\<close> returns a path of fewer than four poses
  unchanged.  For four poses it emits the first pose, the curve points of the one window
  and the last pose.  The window has 20 curve points, not 21: in binary64 arithmetic the
  counter \<open>t\<close> takes the values \<open>0, 0.05, \<dots>\<close> up to \<open>8556839292003945 \<times> 2\<^sup>-\<^sup>5\<^sup>3\<close> (about 0.95),
  and the next sum is \<open>4503599627370497 \<times> 2\<^sup>-\<^sup>5\<^sup>2 = 1 + 2\<^sup>-\<^sup>5\<^sup>2\<close>, which fails \<^verbatim>\<open>t <= 1.0\<close>.  So the
  end of the curve, \<open>t = 1\<close>, is never sampled, and four poses become 22, not 23.
\<close>

theorem smoothPath_four_waypoints:
  "smoothPath [] = Some []
   \<and> smoothPath [a] = Some [a]
   \<and> smoothPath [a, b] = Some [a, b]
   \<and> smoothPath [a, b, c] = Some [a, b, c]
   \<and> smoothPath [p0, p1, p2, p3] =
       Some (p0 # map (\<lambda>t. computeBezierPoint p0 p1 p2 p3 (dval t)) bezier_parameters @ [p3])
   \<and> length bezier_parameters = 20
   \<and> dval (last bezier_parameters) = 8556839292003945 / 2 ^ 53
   \<and> dval (dadd (last bezier_parameters) d_step) = 1 + 1 / 2 ^ 52
   \<and> \<not> dle (dadd (last bezier_parameters) d_step) d_one
   \<and> length (the (smoothPath [p0, p1, p2, p3])) = 22"
proof -
  have four: "smoothPath [p0, p1, p2, p3] =
       Some (p0 # map (\<lambda>t. computeBezierPoint p0 p1 p2 p3 (dval t)) bezier_parameters @ [p3])"
    by (simp add: smoothPath_eq upt_conv_Cons)
  have v1: "dval (last bezier_parameters) = 8556839292003945 / 2 ^ 53"
    unfolding bezier_parameters_values(3) by (simp add: dval_def)
  have v2: "dval (dadd (last bezier_parameters) d_step) = 1 + 1 / 2 ^ 52"
    unfolding bezier_parameters_values(4) by (simp add: dval_def)
  show ?thesis
    unfolding four
    by (simp add: smoothPath_def bezier_parameters_values(2,5) v1 v2)
qed
lemma free_cell_count_all_free: "free_cell_count (unit_grid w h all_free) = w * h"
  by (simp add: free_cell_count_def unit_grid_def all_free_def)

text \<open>
  Claim C8, as amended.  \<^verbatim>\<open>calculateBallRadiusConstant\<close> scans the grid once, and stores
  \<open>min(10, 2 (1 + 1/2) (free_volume / \<pi>)\<^sup>1\<^sup>/\<^sup>2)\<close> with
  \<open>free_volume = resolution\<^sup>2 \<times> (number of free cells modulo 2\<^sup>3\<^sup>2)\<close>: the scan counts the free
  cells in a 32-bit unsigned counter.  For a grid with fewer than \<open>2\<^sup>3\<^sup>2\<close> free cells this is
  the number of free cells itself.  The stored constant lies between 0 and 10, and it is 0
  for a grid without a free cell.  A planning call computes the constant once, before it
  seeds the tree, and nothing after that changes it: the planner a returning call leaves
  behind holds that value.
\<close>

theorem ball_radius_constant_formula:
  "ball_radius_constant (calculateBallRadiusConstant s) =
     min 10 (2 * (1 + 1 / 2) *
       sqrt (getResolution (costmap s) * getResolution (costmap s)
               * real (free_cell_count (costmap s) mod 2 ^ 32) / pi))
   \<and> (free_cell_count (costmap s) < 2 ^ 32 \<longrightarrow>
        ball_radius_constant (calculateBallRadiusConstant s) =
          min 10 (2 * (1 + 1 / 2) *
            sqrt (getResolution (costmap s) * getResolution (costmap s)
                    * real (free_cell_count (costmap s)) / pi)))
   \<and> (free_cell_count (costmap s) = 0 \<longrightarrow>
        ball_radius_constant (calculateBallRadiusConstant s) = 0)
   \<and> 0 \<le> ball_radius_constant (calculateBallRadiusConstant s)
   \<and> ball_radius_constant (calculateBallRadiusConstant s) \<le> 10
   \<and> calculateBallRadiusConstant s =
         s\<lparr>ball_radius_constant := ball_radius_constant (calculateBallRadiusConstant s)\<rparr>
   \<and> (createPlan_raw s start goal stream = Some (s', raw) \<and>
        frame_id start = global_frame s \<and> frame_id goal = global_frame s
      \<longrightarrow> ball_radius_constant s' = ball_radius_constant (calculateBallRadiusConstant s))"
proof -
  have wrap: "unat (word_of_nat n :: 32 word) = n mod 2 ^ 32" for n :: nat
    by (simp add: unat_of_nat)
  have a: "ball_radius_constant (calculateBallRadiusConstant s) =
     min 10 (2 * (1 + 1 / 2) *
       sqrt (getResolution (costmap s) * getResolution (costmap s)
               * real (free_cell_count (costmap s) mod 2 ^ 32) / pi))"
    by (simp add: ball_radius_constant_eq wrap)
  have b: "free_cell_count (costmap s) < 2 ^ 32 \<longrightarrow>
        ball_radius_constant (calculateBallRadiusConstant s) =
          min 10 (2 * (1 + 1 / 2) *
            sqrt (getResolution (costmap s) * getResolution (costmap s)
                    * real (free_cell_count (costmap s)) / pi))"
    unfolding a by simp
  have c: "free_cell_count (costmap s) = 0 \<longrightarrow>
        ball_radius_constant (calculateBallRadiusConstant s) = 0"
    unfolding a by simp
  have d: "calculateBallRadiusConstant s =
         s\<lparr>ball_radius_constant := ball_radius_constant (calculateBallRadiusConstant s)\<rparr>"
    by (simp add: calculateBallRadiusConstant_def Let_def)
  have e: "ball_radius_constant s' = ball_radius_constant (calculateBallRadiusConstant s)"
    if "createPlan_raw s start goal stream = Some (s', raw)"
      "frame_id start = global_frame s" "frame_id goal = global_frame s"
    using createPlan_raw_result [OF that] by blast
  from a b c d e ball_radius_constant_bounds [of s] show ?thesis by blast
qed

text \<open>Two free unit cells give \<open>min(10, 3 (2/\<pi>)\<^sup>1\<^sup>/\<^sup>2)\<close>, a grid whose only cell is occupied
  gives 0, and the example call keeps the constant it computed.\<close>

theorem ball_radius_constant_formula_witness:
  "ball_radius_constant (calculateBallRadiusConstant (planner_on (unit_grid 2 1 all_free) (1/100) 1000))
     = min 10 (3 * sqrt (2 / pi))
   \<and> ball_radius_constant
       (calculateBallRadiusConstant (planner_on (unit_grid 1 1 (one_obstacle 0 0)) (1/100) 1000)) = 0
   \<and> (\<exists>s' raw.
        createPlan_raw example_planner example_start example_goal example_stream = Some (s', raw) \<and>
        ball_radius_constant s' = ball_radius_constant (calculateBallRadiusConstant example_planner))"
proof -
  have c2: "free_cell_count (unit_grid 2 1 all_free) = 2"
    by (simp add: free_cell_count_all_free)
  have c0: "free_cell_count (unit_grid 1 1 (one_obstacle 0 0)) = 0"
    by (simp add: free_cell_count_def unit_grid_def one_obstacle_def FREE_SPACE_def)
  have r: "getResolution (unit_grid w h c) = 1" for w h c
    by (simp add: unit_grid_def)
  have "ball_radius_constant (calculateBallRadiusConstant (planner_on (unit_grid 2 1 all_free) (1/100) 1000))
     = min 10 (3 * sqrt (2 / pi))"
    using ball_radius_constant_formula [of "planner_on (unit_grid 2 1 all_free) (1/100) 1000"]
    unfolding costmap_planner_on c2 r by simp
  moreover have "ball_radius_constant
       (calculateBallRadiusConstant (planner_on (unit_grid 1 1 (one_obstacle 0 0)) (1/100) 1000)) = 0"
    using ball_radius_constant_formula [of "planner_on (unit_grid 1 1 (one_obstacle 0 0)) (1/100) 1000"]
    unfolding costmap_planner_on c0 by simp
  moreover have "\<exists>s' raw.
        createPlan_raw example_planner example_start example_goal example_stream = Some (s', raw) \<and>
        ball_radius_constant s' = ball_radius_constant (calculateBallRadiusConstant example_planner)"
  proof -
    from example_plan_returns obtain s' raw where
      p: "createPlan_raw example_planner example_start example_goal example_stream = Some (s', raw)"
      by blast
    have "frame_id example_start = global_frame example_planner"
      "frame_id example_goal = global_frame example_planner"
      by (simp_all add: example_start_def example_goal_def example_planner_def planner_on_def)
    with p ball_radius_constant_formula [where s = example_planner and start = example_start
        and goal = example_goal and stream = example_stream and s' = s' and raw = raw]
    show ?thesis by blast
  qed
  ultimately show ?thesis by simp
qed

text \<open>
  Claim C8 as stated takes the count of free cells itself.  A free grid of
  \<open>65536 \<times> 65536\<close> unit cells has \<open>2\<^sup>3\<^sup>2\<close> free cells; the formula of the claim gives the clamp
  value 10 for it, but the 32-bit counter has wrapped around to 0 at the end of the scan
  and the stored constant is 0.
\<close>

theorem ball_radius_constant_wraps_counterexample:
  "free_cell_count (costmap (planner_on (unit_grid 65536 65536 all_free) (1/100) 1000)) = 2 ^ 32
   \<and> min 10 (2 * (1 + 1 / 2) *
         sqrt (getResolution (unit_grid 65536 65536 all_free) * getResolution (unit_grid 65536 65536 all_free)
                 * real (free_cell_count (unit_grid 65536 65536 all_free)) / pi)) = 10
   \<and> ball_radius_constant
       (calculateBallRadiusConstant (planner_on (unit_grid 65536 65536 all_free) (1/100) 1000)) = 0"
proof -
  have n: "free_cell_count (unit_grid 65536 65536 all_free) = 2 ^ 32"
    by (simp add: free_cell_count_all_free)
  have r: "getResolution (unit_grid 65536 65536 all_free) = 1"
    by (simp add: unit_grid_def)
  have "pi < 4" using pi_less_4 .
  then have "(16 :: real) \<le> 2 ^ 32 / pi"
    using pi_gt_zero by (simp add: field_simps)
  then have "sqrt 16 \<le> sqrt (2 ^ 32 / pi)"
    by (simp only: real_sqrt_le_iff)
  moreover have "sqrt 16 = (4 :: real)"
    using real_sqrt_abs [of 4] by simp
  ultimately have "(10 :: real) \<le> 2 * (1 + 1 / 2) * sqrt (2 ^ 32 / pi)" by simp
  then have f: "min 10 (2 * (1 + 1 / 2) * sqrt (1 * 1 * real (2 ^ 32 :: nat) / pi)) = 10"
    by (simp add: min_def)
  have "unat (word_of_nat (2 ^ 32 :: nat) :: 32 word) = 0"
    by (simp add: unat_of_nat)
  then have z: "ball_radius_constant
       (calculateBallRadiusConstant (planner_on (unit_grid 65536 65536 all_free) (1/100) 1000)) = 0"
    unfolding ball_radius_constant_eq costmap_planner_on n by simp
  from n r f z show ?thesis
    unfolding costmap_planner_on n r by blast
qed


end
